theory Spec2Isabelle
  imports Main "HOL-Library.AList"
begin

section \<open>Values, documents and queries\<close>

text \<open>
  The repository layer (\<^verbatim>\<open>src/database/repositories/crud.py\<close>) is generic in the
  documents it stores: a document is a Python dict from field names to values, a query
  is a dict from field names to match criteria.  The values the source itself inspects
  are the identifier (it tests its truth value and passes it to \<^verbatim>\<open>str\<close>) and whole
  dicts (it tests whether they are empty), so values are modelled as scalars, with the
  store-native identifier (a BSON ObjectId) as a constructor of its own.
\<close>

datatype val = VNone | VBool bool | VInt int | VStr string | VOid nat

type_synonym doc = "(string \<times> val) list"

text \<open>
  Match criteria: \<^verbatim>\<open>{"f": v}\<close> (equality) and \<^verbatim>\<open>{"f": {"$in": [v1, ...]}}\<close>
  (membership); these are the two forms the source builds itself
  (\<^verbatim>\<open>{"_id": result.inserted_id}\<close>, \<^verbatim>\<open>{"client_id": client}\<close>,
  \<^verbatim>\<open>{"_id": {"$in": result.inserted_ids}}\<close>).
\<close>

datatype crit = Eq val | In "val list"

type_synonym query = "(string \<times> crit) list"

datatype exc = TypeError | KeyError | ValueError | DuplicateKeyError | BulkWriteError
  | WriteError | RuntimeError | RedisError | JSONDecodeError | JSONEncodeError

subsection \<open>Python's \<^verbatim>\<open>bool(x)\<close> and \<^verbatim>\<open>str(x)\<close> on values\<close>

fun truthy :: "val \<Rightarrow> bool" where
  "truthy VNone = False"
| "truthy (VBool b) = b"
| "truthy (VInt i) = (i \<noteq> 0)"
| "truthy (VStr s) = (s \<noteq> [])"
| "truthy (VOid n) = True"

definition digit_char :: "nat \<Rightarrow> char" where
  "digit_char n = ''0123456789abcdef'' ! (n mod 16)"

function str_nat :: "nat \<Rightarrow> string" where
  "str_nat n = (if n < 10 then [digit_char n] else str_nat (n div 10) @ [digit_char (n mod 10)])"
  by pat_completeness auto
termination
  by (relation "measure id") auto

declare str_nat.simps [simp del]

definition str_int :: "int \<Rightarrow> string" where
  "str_int i = (if i < 0 then CHR ''-'' # str_nat (nat (- i)) else str_nat (nat i))"

text \<open>An ObjectId prints as its 12 bytes in 24 hexadecimal digits.\<close>

definition str_oid :: "nat \<Rightarrow> string" where
  "str_oid n = map (\<lambda>i. digit_char ((n div 16 ^ (23 - i)) mod 16)) [0..<24]"

fun py_str :: "val \<Rightarrow> string" where
  "py_str VNone = ''None''"
| "py_str (VBool b) = (if b then ''True'' else ''False'')"
| "py_str (VInt i) = str_int i"
| "py_str (VStr s) = s"
| "py_str (VOid n) = str_oid n"

section \<open>The document store\<close>

text \<open>
  The collection object of the driver (\<^verbatim>\<open>self._collection\<close>) is the state the
  repository works on.  Its documents are kept in natural (insertion) order;
  \<open>next_oid\<close> is the supply of generated identifiers.  The operations below are the
  driver calls the repository makes, with the behaviour the driver documents for them.
  An operation returns its result, or the exception it raises, together with the
  collection it leaves behind: an exception does not undo what was written before it.
\<close>

record collection =
  docs :: "doc list"
  next_oid :: nat

text \<open>A field that is missing compares like \<^verbatim>\<open>null\<close> in a match.\<close>

definition field :: "doc \<Rightarrow> string \<Rightarrow> val" where
  "field d k = (case map_of d k of None \<Rightarrow> VNone | Some v \<Rightarrow> v)"

fun crit_holds :: "crit \<Rightarrow> val \<Rightarrow> bool" where
  "crit_holds (Eq v) x = (x = v)"
| "crit_holds (In vs) x = (x \<in> set vs)"

definition matches :: "query \<Rightarrow> doc \<Rightarrow> bool" where
  "matches q d = list_all (\<lambda>(k, c). crit_holds c (field d k)) q"

definition find_one :: "query \<Rightarrow> collection \<Rightarrow> doc option" where
  "find_one q c = List.find (matches q) (docs c)"

definition find_docs :: "query \<Rightarrow> collection \<Rightarrow> doc list" where
  "find_docs q c = filter (matches q) (docs c)"

definition has_id :: "val \<Rightarrow> doc list \<Rightarrow> bool" where
  "has_id i ds = list_ex (\<lambda>d. map_of d ''_id'' = Some i) ds"

text \<open>
  \<^verbatim>\<open>insert_one(document)\<close>: a document without \<^verbatim>\<open>_id\<close> gets a generated ObjectId;
  an identifier already in the collection is refused (the unique index on \<^verbatim>\<open>_id\<close>).
  The result is \<^verbatim>\<open>result.inserted_id\<close>.
\<close>

definition insert_one :: "doc \<Rightarrow> collection \<Rightarrow> (exc + val) \<times> collection" where
  "insert_one values c =
     (case map_of values ''_id'' of
        Some i \<Rightarrow>
          if has_id i (docs c) then (Inl DuplicateKeyError, c)
          else (Inr i, c\<lparr>docs := docs c @ [values]\<rparr>)
      | None \<Rightarrow>
          let i = VOid (next_oid c); c1 = c\<lparr>next_oid := Suc (next_oid c)\<rparr> in
          if has_id i (docs c) then (Inl DuplicateKeyError, c1)
          else (Inr i, c1\<lparr>docs := docs c @ [(''_id'', i) # values]\<rparr>))"

text \<open>
  \<^verbatim>\<open>{"$set": update}\<close> on one document: every field of the patch is assigned, the
  other fields stay.  The identifier is immutable: a patch that would change it is a
  write error.
\<close>

definition apply_set :: "doc \<Rightarrow> doc \<Rightarrow> doc" where
  "apply_set u d = fold (\<lambda>(k, v). AList.update k v) u d"

definition set_doc :: "doc \<Rightarrow> doc \<Rightarrow> exc + doc" where
  "set_doc u d =
     (if map_of (apply_set u d) ''_id'' \<noteq> map_of d ''_id'' then Inl WriteError
      else Inr (apply_set u d))"

text \<open>
  \<^verbatim>\<open>update_one(query, {"$set": update})\<close> patches the first match in natural order,
  \<^verbatim>\<open>update_many\<close> every match, one document after the other.  Both report
  \<^verbatim>\<open>modified_count\<close>, the number of documents the patch really changed.
\<close>

fun update_first :: "query \<Rightarrow> doc \<Rightarrow> doc list \<Rightarrow> (exc + nat) \<times> doc list" where
  "update_first q u [] = (Inr 0, [])"
| "update_first q u (d # ds) =
     (if matches q d then
        (case set_doc u d of
           Inl e \<Rightarrow> (Inl e, d # ds)
         | Inr d' \<Rightarrow> (Inr (if d' = d then 0 else 1), d' # ds))
      else (case update_first q u ds of (r, ds') \<Rightarrow> (r, d # ds')))"

fun update_all :: "query \<Rightarrow> doc \<Rightarrow> doc list \<Rightarrow> (exc + nat) \<times> doc list" where
  "update_all q u [] = (Inr 0, [])"
| "update_all q u (d # ds) =
     (if matches q d then
        (case set_doc u d of
           Inl e \<Rightarrow> (Inl e, d # ds)
         | Inr d' \<Rightarrow>
             (case update_all q u ds of
                (Inl e, ds') \<Rightarrow> (Inl e, d' # ds')
              | (Inr n, ds') \<Rightarrow> (Inr ((if d' = d then 0 else 1) + n), d' # ds')))
      else (case update_all q u ds of (r, ds') \<Rightarrow> (r, d # ds')))"

definition update_one :: "query \<Rightarrow> doc \<Rightarrow> collection \<Rightarrow> (exc + nat) \<times> collection" where
  "update_one q u c = (case update_first q u (docs c) of (r, ds) \<Rightarrow> (r, c\<lparr>docs := ds\<rparr>))"

definition coll_update_many :: "query \<Rightarrow> doc \<Rightarrow> collection \<Rightarrow> (exc + nat) \<times> collection" where
  "coll_update_many q u c = (case update_all q u (docs c) of (r, ds) \<Rightarrow> (r, c\<lparr>docs := ds\<rparr>))"

definition delete_many :: "query \<Rightarrow> collection \<Rightarrow> nat \<times> collection" where
  "delete_many q c =
     (length (filter (matches q) (docs c)), c\<lparr>docs := filter (\<lambda>d. \<not> matches q d) (docs c)\<rparr>)"

text \<open>
  \<^verbatim>\<open>insert_many(documents)\<close>: ordered, so it stops at the first document that is
  refused and keeps the ones before it; an empty list is a \<^verbatim>\<open>TypeError\<close>.
  The result is \<^verbatim>\<open>result.inserted_ids\<close>.
\<close>

fun insert_all :: "doc list \<Rightarrow> collection \<Rightarrow> (exc + val list) \<times> collection" where
  "insert_all [] c = (Inr [], c)"
| "insert_all (d # ds) c =
     (case insert_one d c of
        (Inl e, c1) \<Rightarrow> (Inl BulkWriteError, c1)
      | (Inr i, c1) \<Rightarrow>
          (case insert_all ds c1 of
             (Inl e, c2) \<Rightarrow> (Inl e, c2)
           | (Inr ids, c2) \<Rightarrow> (Inr (i # ids), c2)))"

definition insert_many :: "doc list \<Rightarrow> collection \<Rightarrow> (exc + val list) \<times> collection" where
  "insert_many data c = (if data = [] then (Inl TypeError, c) else insert_all data c)"

text \<open>
  A cursor: \<^verbatim>\<open>skip\<close> refuses a negative offset; a \<^verbatim>\<open>limit\<close> of 0 is no limit, and a
  negative one caps at its absolute value.
\<close>

definition cursor_limit :: "int \<Rightarrow> doc list \<Rightarrow> doc list" where
  "cursor_limit n ds = (if n = 0 then ds else take (nat \<bar>n\<bar>) ds)"

definition count_documents :: "query \<Rightarrow> nat option \<Rightarrow> collection \<Rightarrow> nat" where
  "count_documents q limit c =
     (case limit of
        None \<Rightarrow> length (find_docs q c)
      | Some n \<Rightarrow> min n (length (find_docs q c)))"

section \<open>The generic repository\<close>

text \<open>
  \<^verbatim>\<open>MongoDBCRUDRepository.select\<close>: the first match, with its identifier replaced by
  its string form; \<^verbatim>\<open>None\<close> when nothing matches (or the match is an empty dict).
\<close>

definition stringify_id :: "doc \<Rightarrow> exc + doc" where
  "stringify_id d =
     (case map_of d ''_id'' of
        None \<Rightarrow> Inl KeyError
      | Some i \<Rightarrow> Inr (AList.update ''_id'' (VStr (py_str i)) d))"

definition select :: "query \<Rightarrow> collection \<Rightarrow> exc + doc option" where
  "select q c =
     (case find_one q c of
        None \<Rightarrow> Inr None
      | Some document \<Rightarrow>
          if document \<noteq> [] then
            (case stringify_id document of Inl e \<Rightarrow> Inl e | Inr d \<Rightarrow> Inr (Some d))
          else Inr None)"

text \<open>\<^verbatim>\<open>MongoDBCRUDRepository.update\<close>: \<^verbatim>\<open>update_one\<close> with \<^verbatim>\<open>$set\<close>, then \<^verbatim>\<open>select\<close>.\<close>

definition update :: "query \<Rightarrow> doc \<Rightarrow> collection \<Rightarrow> (exc + doc option) \<times> collection" where
  "update q u c =
     (case update_one q u c of
        (Inl e, c1) \<Rightarrow> (Inl e, c1)
      | (Inr result, c1) \<Rightarrow> (select q c1, c1))"

text \<open>
  \<^verbatim>\<open>MongoDBCRUDRepository.create\<close>.  The source awaits \<^verbatim>\<open>insert_one\<close> and then
  \<^verbatim>\<open>select\<close>; \<open>env\<close> is what other clients of the store do between the two calls.
  \<^verbatim>\<open>document["_id"] = ...\<close> on the \<^verbatim>\<open>None\<close> that \<^verbatim>\<open>select\<close> may return is a
  \<^verbatim>\<open>TypeError\<close>.
\<close>

definition create_with ::
  "(collection \<Rightarrow> collection) \<Rightarrow> doc \<Rightarrow> collection \<Rightarrow> (exc + doc option) \<times> collection" where
  "create_with env values c =
     (case insert_one values c of
        (Inl e, c1) \<Rightarrow> (Inl e, c1)
      | (Inr inserted_id, c1) \<Rightarrow>
          if truthy inserted_id then
            (let c2 = env c1 in
             case select [(''_id'', Eq inserted_id)] c2 of
               Inl e \<Rightarrow> (Inl e, c2)
             | Inr None \<Rightarrow> (Inl TypeError, c2)
             | Inr (Some document) \<Rightarrow>
                 (case stringify_id document of
                    Inl e \<Rightarrow> (Inl e, c2)
                  | Inr d \<Rightarrow> (Inr (Some d), c2)))
          else (Inr None, c1))"

definition create :: "doc \<Rightarrow> collection \<Rightarrow> (exc + doc option) \<times> collection" where
  "create values c = create_with (\<lambda>c. c) values c"

text \<open>\<^verbatim>\<open>MongoDBCRUDRepository.select_many\<close>: the documents as the cursor yields them.\<close>

definition select_many ::
  "query \<Rightarrow> int option \<Rightarrow> int option \<Rightarrow> collection \<Rightarrow> exc + doc list" where
  "select_many q offset limit c =
     (let cursor = find_docs q c in
      case (case offset of
              None \<Rightarrow> Inr cursor
            | Some off \<Rightarrow> if off < 0 then Inl ValueError else Inr (drop (nat off) cursor)) of
        Inl e \<Rightarrow> Inl e
      | Inr cursor1 \<Rightarrow>
          Inr (case limit of None \<Rightarrow> cursor1 | Some n \<Rightarrow> cursor_limit n cursor1))"

text \<open>\<^verbatim>\<open>MongoDBCRUDRepository.create_many\<close>.\<close>

definition create_many :: "doc list \<Rightarrow> collection \<Rightarrow> (exc + doc list) \<times> collection" where
  "create_many data c =
     (case insert_many data c of
        (Inl e, c1) \<Rightarrow> (Inl e, c1)
      | (Inr inserted_ids, c1) \<Rightarrow> (select_many [(''_id'', In inserted_ids)] None None c1, c1))"

text \<open>
  \<^verbatim>\<open>MongoDBCRUDRepository.update_many\<close>.  A batch item is a mapping read with
  \<^verbatim>\<open>item.get("query")\<close> and \<^verbatim>\<open>item.get("update")\<close>, so each of the two is a dict or
  \<^verbatim>\<open>None\<close>; \<^verbatim>\<open>if query and update\<close> asks for both to be present and non-empty.
\<close>

record item =
  item_query :: "query option"
  item_update :: "doc option"

definition effective :: "item \<Rightarrow> bool" where
  "effective it =
     (case item_query it of
        None \<Rightarrow> False
      | Some q \<Rightarrow> q \<noteq> [] \<and> (case item_update it of None \<Rightarrow> False | Some u \<Rightarrow> u \<noteq> []))"

fun update_many_loop :: "item list \<Rightarrow> nat \<Rightarrow> collection \<Rightarrow> (exc + nat) \<times> collection" where
  "update_many_loop [] modified_count c = (Inr modified_count, c)"
| "update_many_loop (it # data) modified_count c =
     (if effective it then
        (case coll_update_many (the (item_query it)) (the (item_update it)) c of
           (Inl e, c1) \<Rightarrow> (Inl e, c1)
         | (Inr n, c1) \<Rightarrow> update_many_loop data (modified_count + n) c1)
      else update_many_loop data modified_count c)"

definition update_many :: "item list \<Rightarrow> collection \<Rightarrow> (exc + nat) \<times> collection" where
  "update_many data c = update_many_loop data 0 c"

text \<open>
  \<^verbatim>\<open>MongoDBCRUDRepository.delete\<close>: \<^verbatim>\<open>select_many\<close>, then \<^verbatim>\<open>delete_many\<close>;
  \<open>env\<close> is what other clients of the store do between the two calls.
\<close>

definition delete_with ::
  "(collection \<Rightarrow> collection) \<Rightarrow> query \<Rightarrow> collection \<Rightarrow> (exc + doc list) \<times> collection" where
  "delete_with env q c =
     (case select_many q None None c of
        Inl e \<Rightarrow> (Inl e, c)
      | Inr deleted_documents \<Rightarrow>
          (case delete_many q (env c) of (result, c2) \<Rightarrow> (Inr deleted_documents, c2)))"

definition delete :: "query \<Rightarrow> collection \<Rightarrow> (exc + doc list) \<times> collection" where
  "delete q c = delete_with (\<lambda>c. c) q c"

definition exists_doc :: "query \<Rightarrow> collection \<Rightarrow> bool" where
  "exists_doc q c = (count_documents q (Some 1) c > 0)"

definition count :: "query \<Rightarrow> collection \<Rightarrow> nat" where
  "count q c = count_documents q None c"

section \<open>The user service\<close>

text \<open>
  \<^verbatim>\<open>UserDTO\<close> (\<^verbatim>\<open>src/api/dto/user.py\<close>) is what the router hands to
  \<^verbatim>\<open>UserService.create\<close>: five strings and two optional booleans.  \<open>UserDTO_unset\<close>
  is \<^verbatim>\<open>UserDTO()\<close>, the input with no field set: every field has the default the
  class declares.
\<close>

record UserDTO =
  client_id :: string
  crm_url :: string
  crm_api_key :: string
  "module_name" :: string
  module_code :: string
  active :: "bool option"
  freeze :: "bool option"

definition UserDTO_unset :: UserDTO where
  "UserDTO_unset =
     \<lparr>client_id = [], crm_url = [], crm_api_key = [], module_name = [],
      module_code = [], active = Some False, freeze = Some False\<rparr>"

text \<open>
  \<^verbatim>\<open>user.model_dump(exclude_none=True)\<close>: the fields in the order of their
  declaration, without those whose value is \<^verbatim>\<open>None\<close>.
\<close>

definition opt_bool :: "bool option \<Rightarrow> val" where
  "opt_bool b = (case b of None \<Rightarrow> VNone | Some x \<Rightarrow> VBool x)"

definition model_dump :: "UserDTO \<Rightarrow> doc" where
  "model_dump user =
     [(''client_id'', VStr (client_id user)), (''crm_url'', VStr (crm_url user)),
      (''crm_api_key'', VStr (crm_api_key user)), (''module_name'', VStr (module_name user)),
      (''module_code'', VStr (module_code user)), (''active'', opt_bool (active user)),
      (''freeze'', opt_bool (freeze user))]"

definition model_dump_exclude_none :: "UserDTO \<Rightarrow> doc" where
  "model_dump_exclude_none user = filter (\<lambda>(k, v). v \<noteq> VNone) (model_dump user)"

text \<open>\<^verbatim>\<open>UserRepository.create\<close> and \<^verbatim>\<open>UserService.create\<close>, which delegates to it.\<close>

definition user_repository_create ::
  "UserDTO \<Rightarrow> collection \<Rightarrow> (exc + doc option) \<times> collection" where
  "user_repository_create user c = create (model_dump_exclude_none user) c"

definition user_service_create ::
  "UserDTO \<Rightarrow> collection \<Rightarrow> (exc + doc option) \<times> collection" where
  "user_service_create user c = user_repository_create user c"

text \<open>\<^verbatim>\<open>UserRepository.get_by_client_id\<close> and \<^verbatim>\<open>UserService.get_user\<close>.\<close>

definition get_by_client_id :: "string \<Rightarrow> collection \<Rightarrow> exc + doc option" where
  "get_by_client_id client c = select [(''client_id'', Eq (VStr client))] c"

definition get_user :: "string \<Rightarrow> collection \<Rightarrow> exc + doc option" where
  "get_user user_id c = get_by_client_id user_id c"

section \<open>The cache\<close>

text \<open>
  The Redis server behind \<^verbatim>\<open>self._client\<close>: the stored bytes by key, the time to live
  of the keys that have one, and \<open>fault\<close>, the error every command raises while the
  server cannot serve (\<^verbatim>\<open>None\<close> when it can).  The commands are those
  \<^verbatim>\<open>RedisCache\<close> sends.
\<close>

record redis =
  entries :: "(string \<times> string) list"
  expires :: "(string \<times> int) list"
  fault :: "exc option"

definition redis_get :: "string \<Rightarrow> redis \<Rightarrow> exc + string option" where
  "redis_get key r = (case fault r of Some e \<Rightarrow> Inl e | None \<Rightarrow> Inr (map_of (entries r) key))"

definition redis_mget :: "string list \<Rightarrow> redis \<Rightarrow> exc + string option list" where
  "redis_mget keys r =
     (case fault r of Some e \<Rightarrow> Inl e | None \<Rightarrow> Inr (map (map_of (entries r)) keys))"

definition redis_set :: "string \<Rightarrow> string \<Rightarrow> redis \<Rightarrow> (exc + bool) \<times> redis" where
  "redis_set key data r =
     (case fault r of
        Some e \<Rightarrow> (Inl e, r)
      | None \<Rightarrow>
          (Inr True, r\<lparr>entries := AList.update key data (entries r),
                      expires := AList.delete key (expires r)\<rparr>))"

text \<open>\<^verbatim>\<open>SETEX\<close> refuses a time to live that is not positive.\<close>

definition redis_setex :: "string \<Rightarrow> int \<Rightarrow> string \<Rightarrow> redis \<Rightarrow> (exc + bool) \<times> redis" where
  "redis_setex key ttl data r =
     (case fault r of
        Some e \<Rightarrow> (Inl e, r)
      | None \<Rightarrow>
          if ttl \<le> 0 then (Inl RedisError, r)
          else (Inr True, r\<lparr>entries := AList.update key data (entries r),
                           expires := AList.update key ttl (expires r)\<rparr>))"

definition redis_delete :: "string \<Rightarrow> redis \<Rightarrow> (exc + int) \<times> redis" where
  "redis_delete key r =
     (case fault r of
        Some e \<Rightarrow> (Inl e, r)
      | None \<Rightarrow>
          (Inr (if map_of (entries r) key = None then 0 else 1),
           r\<lparr>entries := AList.delete key (entries r), expires := AList.delete key (expires r)\<rparr>))"

definition redis_exists :: "string \<Rightarrow> redis \<Rightarrow> exc + int" where
  "redis_exists key r =
     (case fault r of
        Some e \<Rightarrow> Inl e
      | None \<Rightarrow> Inr (if map_of (entries r) key = None then 0 else 1))"

text \<open>\<^verbatim>\<open>EXPIRE\<close> on a key that exists: a time to live that is not positive deletes it.\<close>

definition redis_expire :: "string \<Rightarrow> int \<Rightarrow> redis \<Rightarrow> (exc + bool) \<times> redis" where
  "redis_expire key ttl r =
     (case fault r of
        Some e \<Rightarrow> (Inl e, r)
      | None \<Rightarrow>
          if map_of (entries r) key = None then (Inr False, r)
          else if ttl \<le> 0 then
            (Inr True, r\<lparr>entries := AList.delete key (entries r),
                        expires := AList.delete key (expires r)\<rparr>)
          else (Inr True, r\<lparr>expires := AList.update key ttl (expires r)\<rparr>))"

text \<open>
  \<^verbatim>\<open>RedisCache\<close>: the serializer it holds (\<^verbatim>\<open>self.serializer\<close>, any pair of
  functions that return bytes or a value, or raise) and its client, \<^verbatim>\<open>None\<close> until
  \<^verbatim>\<open>connect\<close>.  Every operation starts with \<^verbatim>\<open>_ensure_connected\<close>, outside its
  \<^verbatim>\<open>try\<close>; the rest of its body is inside \<^verbatim>\<open>try ... except Exception\<close>.
\<close>

record 'v redis_cache =
  dumps :: "'v \<Rightarrow> exc + string"
  loads :: "string \<Rightarrow> exc + 'v"
  client :: "redis option"

definition cache_get :: "'v redis_cache \<Rightarrow> string \<Rightarrow> exc + 'v option" where
  "cache_get ch key =
     (case client ch of
        None \<Rightarrow> Inl RuntimeError
      | Some r \<Rightarrow>
          (case redis_get key r of
             Inl e \<Rightarrow> Inr None
           | Inr None \<Rightarrow> Inr None
           | Inr (Some data) \<Rightarrow>
               (case loads ch data of Inl e \<Rightarrow> Inr None | Inr v \<Rightarrow> Inr (Some v))))"

text \<open>\<^verbatim>\<open>if ttl:\<close> holds for a time to live that is given and not 0.\<close>

definition cache_set ::
  "'v redis_cache \<Rightarrow> string \<Rightarrow> 'v \<Rightarrow> int option \<Rightarrow> (exc + bool) \<times> 'v redis_cache" where
  "cache_set ch key v ttl =
     (case client ch of
        None \<Rightarrow> (Inl RuntimeError, ch)
      | Some r \<Rightarrow>
          (case dumps ch v of
             Inl e \<Rightarrow> (Inr False, ch)
           | Inr data \<Rightarrow>
               (case (case ttl of
                        None \<Rightarrow> redis_set key data r
                      | Some t \<Rightarrow> if t \<noteq> 0 then redis_setex key t data r
                                  else redis_set key data r) of
                  (Inl e, r') \<Rightarrow> (Inr False, ch\<lparr>client := Some r'\<rparr>)
                | (Inr ok, r') \<Rightarrow> (Inr True, ch\<lparr>client := Some r'\<rparr>))))"

definition cache_delete :: "'v redis_cache \<Rightarrow> string \<Rightarrow> (exc + bool) \<times> 'v redis_cache" where
  "cache_delete ch key =
     (case client ch of
        None \<Rightarrow> (Inl RuntimeError, ch)
      | Some r \<Rightarrow>
          (case redis_delete key r of
             (Inl e, r') \<Rightarrow> (Inr False, ch\<lparr>client := Some r'\<rparr>)
           | (Inr result, r') \<Rightarrow> (Inr (result > 0), ch\<lparr>client := Some r'\<rparr>)))"

definition cache_exists :: "'v redis_cache \<Rightarrow> string \<Rightarrow> exc + bool" where
  "cache_exists ch key =
     (case client ch of
        None \<Rightarrow> Inl RuntimeError
      | Some r \<Rightarrow>
          (case redis_exists key r of Inl e \<Rightarrow> Inr False | Inr result \<Rightarrow> Inr (result > 0)))"

definition cache_expire ::
  "'v redis_cache \<Rightarrow> string \<Rightarrow> int \<Rightarrow> (exc + bool) \<times> 'v redis_cache" where
  "cache_expire ch key ttl =
     (case client ch of
        None \<Rightarrow> (Inl RuntimeError, ch)
      | Some r \<Rightarrow>
          (case redis_expire key ttl r of
             (Inl e, r') \<Rightarrow> (Inr False, ch\<lparr>client := Some r'\<rparr>)
           | (Inr result, r') \<Rightarrow> (Inr result, ch\<lparr>client := Some r'\<rparr>)))"

text \<open>
  \<^verbatim>\<open>get_many\<close>: the loop over \<^verbatim>\<open>zip(keys, values)\<close> that fills \<^verbatim>\<open>result\<close>; an
  exception of \<^verbatim>\<open>loads\<close> leaves the loop, and the operation returns \<^verbatim>\<open>{}\<close>.
\<close>

fun get_many_loop ::
  "(string \<Rightarrow> exc + 'v) \<Rightarrow> (string \<times> string option) list \<Rightarrow> (string \<times> 'v) list
     \<Rightarrow> exc + (string \<times> 'v) list" where
  "get_many_loop ld [] result = Inr result"
| "get_many_loop ld ((key, None) # rest) result = get_many_loop ld rest result"
| "get_many_loop ld ((key, Some data) # rest) result =
     (case ld data of
        Inl e \<Rightarrow> Inl e
      | Inr v \<Rightarrow> get_many_loop ld rest (AList.update key v result))"

definition cache_get_many :: "'v redis_cache \<Rightarrow> string list \<Rightarrow> exc + (string \<times> 'v) list" where
  "cache_get_many ch keys =
     (case client ch of
        None \<Rightarrow> Inl RuntimeError
      | Some r \<Rightarrow>
          if keys = [] then Inr []
          else
            (case redis_mget keys r of
               Inl e \<Rightarrow> Inr []
             | Inr values \<Rightarrow>
                 (case get_many_loop (loads ch) (zip keys values) [] of
                    Inl e \<Rightarrow> Inr []
                  | Inr result \<Rightarrow> Inr result)))"

section \<open>The serializer\<close>

text \<open>
  \<^verbatim>\<open>OrjsonSerializer\<close> (\<^verbatim>\<open>src/common/serializers/orjson_serializer.py\<close>) hands its
  argument to \<^verbatim>\<open>orjson.dumps\<close> and \<^verbatim>\<open>orjson.loads\<close>.  The Python objects below are
  the ones JSON has a form for, and the tuple, which \<^verbatim>\<open>orjson.dumps\<close> writes as an
  array; \<open>PBytes\<close> stands for the objects it refuses.  A \<^verbatim>\<open>str\<close> is held as its
  UTF-8 bytes, a \<^verbatim>\<open>dict\<close> as its items in insertion order.  Floating-point numbers
  are not modelled: \<open>orjson_loads\<close> answers a number with a fraction or an exponent,
  and an integer beyond 64 bits, as it answers malformed input.
\<close>

datatype pyobj =
    PNone
  | PBool bool
  | PInt int
  | PStr string
  | PList "pyobj list"
  | PTuple "pyobj list"
  | PDict "(string \<times> pyobj) list"
  | PBytes string

subsection \<open>\<^verbatim>\<open>orjson.dumps\<close>\<close>

definition escape_char :: "char \<Rightarrow> string" where
  "escape_char c =
     (if c = CHR 0x22 then [CHR 0x5C, CHR 0x22]
      else if c = CHR 0x5C then [CHR 0x5C, CHR 0x5C]
      else if c = CHR 0x08 then [CHR 0x5C, CHR ''b'']
      else if c = CHR 0x09 then [CHR 0x5C, CHR ''t'']
      else if c = CHR 0x0A then [CHR 0x5C, CHR ''n'']
      else if c = CHR 0x0C then [CHR 0x5C, CHR ''f'']
      else if c = CHR 0x0D then [CHR 0x5C, CHR ''r'']
      else if (of_char c :: nat) < 32 then
        [CHR 0x5C, CHR ''u'', CHR ''0'', CHR ''0'',
         digit_char (of_char c div 16), digit_char (of_char c mod 16)]
      else [c])"

definition enc_str :: "string \<Rightarrow> string" where
  "enc_str s = CHR 0x22 # concat (map escape_char s) @ [CHR 0x22]"

fun commas :: "string list \<Rightarrow> string" where
  "commas [] = []"
| "commas [x] = x"
| "commas (x # y # ys) = x @ CHR '','' # commas (y # ys)"

fun enc :: "pyobj \<Rightarrow> string" where
  "enc PNone = ''null''"
| "enc (PBool b) = (if b then ''true'' else ''false'')"
| "enc (PInt i) = str_int i"
| "enc (PStr s) = enc_str s"
| "enc (PList xs) = CHR ''['' # commas (map enc xs) @ '']''"
| "enc (PTuple xs) = CHR ''['' # commas (map enc xs) @ '']''"
| "enc (PDict kvs) =
     CHR ''{'' # commas (map (\<lambda>(k, v). enc_str k @ CHR '':'' # enc v) kvs) @ ''}''"
| "enc (PBytes b) = []"

text \<open>What \<^verbatim>\<open>orjson.dumps\<close> accepts: integers of 64 bits, no object it has no form for.\<close>

fun serializable :: "pyobj \<Rightarrow> bool" where
  "serializable PNone = True"
| "serializable (PBool b) = True"
| "serializable (PInt i) = (- (2 ^ 63) \<le> i \<and> i < 2 ^ 64)"
| "serializable (PStr s) = True"
| "serializable (PList xs) = list_all serializable xs"
| "serializable (PTuple xs) = list_all serializable xs"
| "serializable (PDict kvs) = list_all (\<lambda>(k, v). serializable v) kvs"
| "serializable (PBytes b) = False"

definition orjson_dumps :: "pyobj \<Rightarrow> exc + string" where
  "orjson_dumps obj = (if serializable obj then Inr (enc obj) else Inl JSONEncodeError)"

subsection \<open>\<^verbatim>\<open>orjson.loads\<close>\<close>

definition is_ws :: "char \<Rightarrow> bool" where
  "is_ws c = (c = CHR 0x20 \<or> c = CHR 0x09 \<or> c = CHR 0x0A \<or> c = CHR 0x0D)"

definition skip_ws :: "string \<Rightarrow> string" where
  "skip_ws s = dropWhile is_ws s"

definition is_digit :: "char \<Rightarrow> bool" where
  "is_digit c = (48 \<le> (of_char c :: nat) \<and> (of_char c :: nat) \<le> 57)"

definition digit_val :: "char \<Rightarrow> nat" where
  "digit_val c = of_char c - 48"

definition hex_val :: "char \<Rightarrow> nat option" where
  "hex_val c =
     (let n = (of_char c :: nat) in
      if 48 \<le> n \<and> n \<le> 57 then Some (n - 48)
      else if 97 \<le> n \<and> n \<le> 102 then Some (n - 87)
      else if 65 \<le> n \<and> n \<le> 70 then Some (n - 55)
      else None)"

definition hex4 :: "string \<Rightarrow> nat option" where
  "hex4 s =
     (case map hex_val s of
        [Some a, Some b, Some c, Some d] \<Rightarrow> Some (((a * 16 + b) * 16 + c) * 16 + d)
      | _ \<Rightarrow> None)"

definition utf8 :: "nat \<Rightarrow> string" where
  "utf8 cp =
     (if cp < 128 then [char_of cp]
      else if cp < 2048 then [char_of (192 + cp div 64), char_of (128 + cp mod 64)]
      else if cp < 65536 then
        [char_of (224 + cp div 4096), char_of (128 + cp div 64 mod 64), char_of (128 + cp mod 64)]
      else
        [char_of (240 + cp div 262144), char_of (128 + cp div 4096 mod 64),
         char_of (128 + cp div 64 mod 64), char_of (128 + cp mod 64)])"

text \<open>
  The code point after \<^verbatim>\<open>\u\<close>: four hexadecimal digits, a high surrogate with the
  low surrogate that must follow it.  The result is the code point and the input left.
\<close>

definition parse_u :: "string \<Rightarrow> (nat \<times> string) option" where
  "parse_u s =
     (case hex4 (take 4 s) of
        None \<Rightarrow> None
      | Some hi \<Rightarrow>
          if 55296 \<le> hi \<and> hi < 56320 then
            (if take 2 (drop 4 s) = [CHR 0x5C, CHR ''u''] then
               (case hex4 (take 4 (drop 6 s)) of
                  None \<Rightarrow> None
                | Some lo \<Rightarrow>
                    if 56320 \<le> lo \<and> lo < 57344 then
                      Some (65536 + (hi - 55296) * 1024 + (lo - 56320), drop 10 s)
                    else None)
             else None)
          else if 56320 \<le> hi \<and> hi < 57344 then None
          else Some (hi, drop 4 s))"

text \<open>The characters of a string after its opening quote, up to the closing one.\<close>

function parse_str :: "string \<Rightarrow> (string \<times> string) option" where
  "parse_str [] = None"
| "parse_str (c # r) =
     (if c = CHR 0x22 then Some ([], r)
      else if c = CHR 0x5C then
        (case r of
           [] \<Rightarrow> None
         | e # r' \<Rightarrow>
             if e = CHR ''u'' then
               (case parse_u r' of
                  None \<Rightarrow> None
                | Some (cp, r'') \<Rightarrow>
                    if length r'' < length r' then
                      (case parse_str r'' of
                         None \<Rightarrow> None
                       | Some (s, rest) \<Rightarrow> Some (utf8 cp @ s, rest))
                    else None)
             else
               (case (if e = CHR 0x22 then Some (CHR 0x22)
                      else if e = CHR 0x5C then Some (CHR 0x5C)
                      else if e = CHR ''/'' then Some (CHR ''/'')
                      else if e = CHR ''b'' then Some (CHR 0x08)
                      else if e = CHR ''f'' then Some (CHR 0x0C)
                      else if e = CHR ''n'' then Some (CHR 0x0A)
                      else if e = CHR ''r'' then Some (CHR 0x0D)
                      else if e = CHR ''t'' then Some (CHR 0x09)
                      else None) of
                  None \<Rightarrow> None
                | Some x \<Rightarrow>
                    (case parse_str r' of
                       None \<Rightarrow> None
                     | Some (s, rest) \<Rightarrow> Some (x # s, rest))))
      else if (of_char c :: nat) < 32 then None
      else
        (case parse_str r of
           None \<Rightarrow> None
         | Some (s, rest) \<Rightarrow> Some (c # s, rest)))"
  by pat_completeness auto
termination
  by (relation "measure length") auto

declare parse_str.simps [simp del]

text \<open>
  An integer: an optional sign, digits without a leading zero, and no fraction or
  exponent after them; 64 bits at most.
\<close>

definition nat_of_digits :: "string \<Rightarrow> nat" where
  "nat_of_digits ds = fold (\<lambda>c n. 10 * n + digit_val c) ds 0"

definition parse_nat :: "string \<Rightarrow> (nat \<times> string) option" where
  "parse_nat s =
     (let ds = takeWhile is_digit s; rest = dropWhile is_digit s in
      if ds = [] then None
      else if hd ds = CHR ''0'' \<and> length ds > 1 then None
      else if rest \<noteq> [] \<and> hd rest \<in> {CHR ''.'', CHR ''e'', CHR ''E''} then None
      else Some (nat_of_digits ds, rest))"

definition parse_int :: "string \<Rightarrow> (int \<times> string) option" where
  "parse_int s =
     (case s of
        [] \<Rightarrow> None
      | c # r \<Rightarrow>
          if c = CHR ''-'' then
            (case parse_nat r of
               None \<Rightarrow> None
             | Some (n, rest) \<Rightarrow> if int n \<le> 2 ^ 63 then Some (- int n, rest) else None)
          else
            (case parse_nat s of
               None \<Rightarrow> None
             | Some (n, rest) \<Rightarrow> if int n < 2 ^ 64 then Some (int n, rest) else None))"

text \<open>
  The value at the head of the input, and the input after it.  The three parsers call
  each other; each is written over the parsers it calls (\<open>elems\<close>, \<open>members\<close>,
  \<open>val\<close>), and \<open>parse_value\<close>, \<open>parse_elems\<close> and \<open>parse_members\<close> tie them together.
  Their first argument bounds the depth of the calls; \<open>orjson_loads\<close> gives it the
  length of the input, which no value of the input can nest deeper than.
\<close>

definition value_step ::
  "(string \<Rightarrow> (pyobj list \<times> string) option) \<Rightarrow>
   (string \<Rightarrow> ((string \<times> pyobj) list \<times> string) option) \<Rightarrow>
   string \<Rightarrow> (pyobj \<times> string) option" where
  "value_step elems members s =
     (case skip_ws s of
        [] \<Rightarrow> None
      | c # r \<Rightarrow>
          if take 4 (c # r) = ''null'' then Some (PNone, drop 4 (c # r))
          else if take 4 (c # r) = ''true'' then Some (PBool True, drop 4 (c # r))
          else if take 5 (c # r) = ''false'' then Some (PBool False, drop 5 (c # r))
          else if c = CHR 0x22 then
            (case parse_str r of None \<Rightarrow> None | Some (s, rest) \<Rightarrow> Some (PStr s, rest))
          else if c = CHR ''['' then
            (case skip_ws r of
               [] \<Rightarrow> None
             | c' # r' \<Rightarrow>
                 if c' = CHR '']'' then Some (PList [], r')
                 else (case elems r of
                         None \<Rightarrow> None
                       | Some (xs, rest) \<Rightarrow> Some (PList xs, rest)))
          else if c = CHR ''{'' then
            (case skip_ws r of
               [] \<Rightarrow> None
             | c' # r' \<Rightarrow>
                 if c' = CHR ''}'' then Some (PDict [], r')
                 else (case members r of
                         None \<Rightarrow> None
                       | Some (kvs, rest) \<Rightarrow>
                           Some (PDict (fold (\<lambda>(k, v). AList.update k v) kvs []), rest)))
          else (case parse_int (c # r) of
                  None \<Rightarrow> None
                | Some (i, rest) \<Rightarrow> Some (PInt i, rest)))"

definition elems_step ::
  "(string \<Rightarrow> (pyobj \<times> string) option) \<Rightarrow>
   (string \<Rightarrow> (pyobj list \<times> string) option) \<Rightarrow>
   string \<Rightarrow> (pyobj list \<times> string) option" where
  "elems_step val elems s =
     (case val s of
        None \<Rightarrow> None
      | Some (x, rest) \<Rightarrow>
          (case skip_ws rest of
             [] \<Rightarrow> None
           | c # r \<Rightarrow>
               if c = CHR '']'' then Some ([x], r)
               else if c = CHR '','' then
                 (case elems r of
                    None \<Rightarrow> None
                  | Some (xs, rest') \<Rightarrow> Some (x # xs, rest'))
               else None))"

definition members_step ::
  "(string \<Rightarrow> (pyobj \<times> string) option) \<Rightarrow>
   (string \<Rightarrow> ((string \<times> pyobj) list \<times> string) option) \<Rightarrow>
   string \<Rightarrow> ((string \<times> pyobj) list \<times> string) option" where
  "members_step val members s =
     (case skip_ws s of
        [] \<Rightarrow> None
      | q # r0 \<Rightarrow>
          if q \<noteq> CHR 0x22 then None
          else
            (case parse_str r0 of
               None \<Rightarrow> None
             | Some (k, r1) \<Rightarrow>
                 (case skip_ws r1 of
                    [] \<Rightarrow> None
                  | colon # r2 \<Rightarrow>
                      if colon \<noteq> CHR '':'' then None
                      else
                        (case val r2 of
                           None \<Rightarrow> None
                         | Some (v, r3) \<Rightarrow>
                             (case skip_ws r3 of
                                [] \<Rightarrow> None
                              | c # r \<Rightarrow>
                                  if c = CHR ''}'' then Some ([(k, v)], r)
                                  else if c = CHR '','' then
                                    (case members r of
                                       None \<Rightarrow> None
                                     | Some (kvs, rest') \<Rightarrow> Some ((k, v) # kvs, rest'))
                                  else None)))))"

fun parse_value :: "nat \<Rightarrow> string \<Rightarrow> (pyobj \<times> string) option"
  and parse_elems :: "nat \<Rightarrow> string \<Rightarrow> (pyobj list \<times> string) option"
  and parse_members :: "nat \<Rightarrow> string \<Rightarrow> ((string \<times> pyobj) list \<times> string) option" where
  "parse_value 0 s = None"
| "parse_value (Suc n) s = value_step (\<lambda>r. parse_elems n r) (\<lambda>r. parse_members n r) s"
| "parse_elems 0 s = None"
| "parse_elems (Suc n) s = elems_step (\<lambda>r. parse_value n r) (\<lambda>r. parse_elems n r) s"
| "parse_members 0 s = None"
| "parse_members (Suc n) s = members_step (\<lambda>r. parse_value n r) (\<lambda>r. parse_members n r) s"

definition orjson_loads :: "string \<Rightarrow> exc + pyobj" where
  "orjson_loads data =
     (case parse_value (Suc (length data)) data of
        None \<Rightarrow> Inl JSONDecodeError
      | Some (obj, rest) \<Rightarrow> if skip_ws rest = [] then Inr obj else Inl JSONDecodeError)"

subsection \<open>\<^verbatim>\<open>OrjsonSerializer\<close>\<close>

text \<open>
  \<^verbatim>\<open>loads\<close> takes bytes or a \<^verbatim>\<open>str\<close>, and encodes the \<^verbatim>\<open>str\<close> to UTF-8 first;
  a \<^verbatim>\<open>str\<close> being held as its UTF-8 bytes, \<open>encode_utf8\<close> has nothing to change.
\<close>

datatype payload = Bytes string | Str string

definition encode_utf8 :: "string \<Rightarrow> string" where
  "encode_utf8 s = s"

definition serializer_dumps :: "pyobj \<Rightarrow> exc + string" where
  "serializer_dumps obj = orjson_dumps obj"

definition serializer_loads :: "payload \<Rightarrow> exc + pyobj" where
  "serializer_loads data =
     (case data of
        Str s \<Rightarrow> orjson_loads (encode_utf8 s)
      | Bytes b \<Rightarrow> orjson_loads b)"

definition serializer_dumps_str :: "pyobj \<Rightarrow> exc + string" where
  "serializer_dumps_str obj = (case orjson_dumps obj of Inl e \<Rightarrow> Inl e | Inr b \<Rightarrow> Inr b)"

subsection \<open>The objects \<^verbatim>\<open>loads\<close> gives back\<close>

text \<open>
  A Python \<^verbatim>\<open>dict\<close> has each key once.  JSON has arrays only, so a tuple is read
  back as a list: \<open>tuples_as_lists\<close> is the object with every tuple turned into the
  list of its items, and \<open>tuple_free\<close> says that there is none to turn.
\<close>

fun keys_distinct :: "pyobj \<Rightarrow> bool" where
  "keys_distinct (PList xs) = list_all keys_distinct xs"
| "keys_distinct (PTuple xs) = list_all keys_distinct xs"
| "keys_distinct (PDict kvs) =
     (distinct (map fst kvs) \<and> list_all (\<lambda>(k, v). keys_distinct v) kvs)"
| "keys_distinct v = True"

fun tuple_free :: "pyobj \<Rightarrow> bool" where
  "tuple_free (PList xs) = list_all tuple_free xs"
| "tuple_free (PTuple xs) = False"
| "tuple_free (PDict kvs) = list_all (\<lambda>(k, v). tuple_free v) kvs"
| "tuple_free v = True"

fun tuples_as_lists :: "pyobj \<Rightarrow> pyobj" where
  "tuples_as_lists (PList xs) = PList (map tuples_as_lists xs)"
| "tuples_as_lists (PTuple xs) = PList (map tuples_as_lists xs)"
| "tuples_as_lists (PDict kvs) = PDict (map (\<lambda>(k, v). (k, tuples_as_lists v)) kvs)"
| "tuples_as_lists v = v"

subsection \<open>Notions for the proofs\<close>

text \<open>
  What may follow an integer (\<open>int_stop\<close>) and a value inside an array or an object
  (\<open>delim\<close>); the text of one item of a \<^verbatim>\<open>dict\<close>; and the statement that \<open>parse_value\<close>
  reads the text of an object back, whatever follows it.
\<close>

definition int_stop :: "string \<Rightarrow> bool" where
  "int_stop rest = (rest = [] \<or> \<not> is_digit (hd rest) \<and> hd rest \<notin> {CHR ''.'', CHR ''e'', CHR ''E''})"

definition delim :: "string \<Rightarrow> bool" where
  "delim rest = (rest = [] \<or> hd rest \<in> {CHR '','', CHR '']'', CHR ''}''})"

definition enc_item :: "string \<times> pyobj \<Rightarrow> string" where
  "enc_item kv = enc_str (fst kv) @ CHR '':'' # enc (snd kv)"

definition reads_back :: "pyobj \<Rightarrow> bool" where
  "reads_back v =
     (\<forall>n rest. length (enc v) < n \<longrightarrow> delim rest \<longrightarrow>
        parse_value n (enc v @ rest) = Some (tuples_as_lists v, rest))"

section \<open>Properties of the repository\<close>

subsection \<open>Facts about the store\<close>

lemma select_many_plain: "select_many q None None c = Inr (filter (matches q) (docs c))"
  by (simp add: select_many_def find_docs_def)

lemma apply_set_map_of: "map_of (apply_set u d) = map_of d ++ map_of (rev u)"
  unfolding apply_set_def
proof (induction u arbitrary: d)
  case Nil
  then show ?case by simp
next
  case (Cons a u)
  obtain k v where a: "a = (k, v)" by (cases a)
  show ?case
    by (simp add: a Cons.IH update_conv' map_add_def fun_eq_iff split: option.splits)
qed

lemma update_first_effect:
  "update_first q u ds = (Inr n, ds') \<Longrightarrow>
     (case List.find (matches q) ds of
        None \<Rightarrow> ds' = ds \<and> n = 0
      | Some d \<Rightarrow> \<exists>pre post. ds = pre @ d # post \<and> (\<forall>x\<in>set pre. \<not> matches q x) \<and>
                   ds' = pre @ apply_set u d # post \<and> n = (if apply_set u d = d then 0 else 1))"
proof (induction ds arbitrary: n ds')
  case Nil
  then show ?case by simp
next
  case (Cons d ds)
  show ?case
  proof (cases "matches q d")
    case True
    with Cons.prems have "ds' = apply_set u d # ds \<and> n = (if apply_set u d = d then 0 else 1)"
      by (auto simp: set_doc_def split: if_splits)
    with True show ?thesis
      by (simp add: exI[of _ "[]"])
  next
    case False
    with Cons.prems obtain ds1 where r: "update_first q u ds = (Inr n, ds1)" and e: "ds' = d # ds1"
      by (auto split: prod.splits)
    show ?thesis
    proof (cases "List.find (matches q) ds")
      case None
      with Cons.IH[OF r] False e show ?thesis by simp
    next
      case (Some d0)
      with Cons.IH[OF r] obtain pre post where
        h: "ds = pre @ d0 # post" "\<forall>x\<in>set pre. \<not> matches q x"
           "ds1 = pre @ apply_set u d0 # post" "n = (if apply_set u d0 = d0 then 0 else 1)"
        by auto
      have "d # ds = (d # pre) @ d0 # post \<and> (\<forall>x\<in>set (d # pre). \<not> matches q x) \<and>
            ds' = (d # pre) @ apply_set u d0 # post"
        using h False e by simp
      then have "\<exists>pre post. d # ds = pre @ d0 # post \<and> (\<forall>x\<in>set pre. \<not> matches q x) \<and>
            ds' = pre @ apply_set u d0 # post"
        by blast
      with Some False h(4) show ?thesis by simp
    qed
  qed
qed

lemma update_many_loop_acc:
  "update_many_loop data acc c =
     (case update_many_loop data 0 c of
        (Inl e, c') \<Rightarrow> (Inl e, c')
      | (Inr m, c') \<Rightarrow> (Inr (acc + m), c'))"
proof (induction data arbitrary: acc c)
  case Nil
  then show ?case by simp
next
  case (Cons it data)
  show ?case
  proof (cases "effective it")
    case False
    then show ?thesis using Cons.IH[of acc c] by simp
  next
    case True
    show ?thesis
    proof (cases "coll_update_many (the (item_query it)) (the (item_update it)) c")
      case (Pair r c1)
      show ?thesis
      proof (cases r)
        case (Inl e)
        with True Pair show ?thesis by simp
      next
        case (Inr n)
        with True Pair show ?thesis
          using Cons.IH[of "acc + n" c1] Cons.IH[of "n" c1]
          by (simp split: prod.splits sum.splits)
      qed
    qed
  qed
qed

lemma stringify_id_Inr:
  "stringify_id d = Inr d' \<Longrightarrow> \<exists>i. map_of d ''_id'' = Some i \<and> d' = AList.update ''_id'' (VStr (py_str i)) d \<and>
      map_of d' ''_id'' = Some (VStr (py_str i))"
  by (auto simp: stringify_id_def update_conv' split: option.splits)

lemma stringify_id_twice:
  "stringify_id d = Inr d' \<Longrightarrow> stringify_id d' = Inr d'"
  by (auto simp: stringify_id_def update_conv' split: option.splits)

lemma insert_one_Inr:
  assumes "insert_one values c = (Inr i, c1)"
  shows "\<not> has_id i (docs c) \<and>
         (\<exists>d. docs c1 = docs c @ [d] \<and> map_of d ''_id'' = Some i \<and>
              (\<forall>k. k \<noteq> ''_id'' \<longrightarrow> map_of d k = map_of values k))"
  using assms
  by (auto simp: insert_one_def Let_def split: option.splits if_splits)

lemma matches_id_eq:
  "matches [(''_id'', Eq i)] d = (field d ''_id'' = i)"
  by (simp add: matches_def)

lemma no_id_no_match:
  "i \<noteq> VNone \<Longrightarrow> \<not> has_id i ds \<Longrightarrow> d \<in> set ds \<Longrightarrow> \<not> matches [(''_id'', Eq i)] d"
  by (auto simp: matches_id_eq field_def has_id_def list_ex_iff split: option.splits)

lemma find_absent_id:
  "i \<noteq> VNone \<Longrightarrow> \<not> has_id i ds \<Longrightarrow> List.find (matches [(''_id'', Eq i)]) ds = None"
  by (auto simp: find_None_iff dest: no_id_no_match)

lemma find_append:
  "List.find P (xs @ ys) = (case List.find P xs of None \<Rightarrow> List.find P ys | Some x \<Rightarrow> Some x)"
  by (induction xs) auto

lemma truthy_not_None: "truthy i \<Longrightarrow> i \<noteq> VNone"
  by auto

lemma select_Some_id:
  "select q c = Inr (Some d) \<Longrightarrow> \<exists>s. map_of d ''_id'' = Some (VStr s)"
  by (auto simp: select_def split: option.splits if_splits sum.splits dest: stringify_id_Inr)

lemma create_with_Some_id:
  "create_with env values c = (Inr (Some d), c') \<Longrightarrow> \<exists>s. map_of d ''_id'' = Some (VStr s)"
  by (auto simp: create_with_def Let_def split: prod.splits option.splits if_splits sum.splits
           dest: stringify_id_Inr)

lemma select_many_subset:
  assumes "select_many q off lim c = Inr ds"
  shows "set ds \<subseteq> set (docs c)"
proof -
  have a: "set (drop n (filter (matches q) (docs c))) \<subseteq> set (docs c)" for n
    using set_drop_subset[of n "filter (matches q) (docs c)"] by auto
  have b: "set (cursor_limit n xs) \<subseteq> set xs" for n xs
    using set_take_subset[of "nat \<bar>n\<bar>" xs] by (simp add: cursor_limit_def)
  have c: "set (cursor_limit m (drop n (filter (matches q) (docs c)))) \<subseteq> set (docs c)" for m n
    using a[of n] b[of m "drop n (filter (matches q) (docs c))"] by blast
  have d: "set (cursor_limit m (filter (matches q) (docs c))) \<subseteq> set (docs c)" for m
    using b[of m "filter (matches q) (docs c)"] by auto
  from assms show ?thesis
    by (auto simp: select_many_def find_docs_def Let_def split: option.splits if_splits
             dest: subsetD[OF a] subsetD[OF c] subsetD[OF d])
qed

lemma str_oid_0: "str_oid 0 = ''000000000000000000000000''"
  by (simp add: str_oid_def digit_char_def upt_rec)

lemma str_oid_1: "str_oid (Suc 0) = ''000000000000000000000001''"
  by (simp add: str_oid_def digit_char_def upt_rec)

subsection \<open>\<^verbatim>\<open>update\<close>\<close>

text \<open>
  Claim C1.  \<^verbatim>\<open>update(query, patch)\<close> applies the patch with \<^verbatim>\<open>$set\<close> to the first
  document matching the query: the documents before it do not match and stay, the
  documents after it stay, and the patched document has the patch's fields over its
  own (a merge, not a replacement).  What it returns is \<^verbatim>\<open>select\<close> of the same query
  on the collection after the update, not a read of the patched document by its
  identifier.
\<close>

theorem update_sets_first_match_then_reselects:
  assumes "update_one q u c = (Inr n, c1)"
  shows "update q u c = (select q c1, c1) \<and>
         next_oid c1 = next_oid c \<and>
         (case find_one q c of
            None \<Rightarrow> docs c1 = docs c
          | Some d \<Rightarrow> \<exists>pre post. docs c = pre @ d # post \<and> (\<forall>x\<in>set pre. \<not> matches q x) \<and>
                       docs c1 = pre @ apply_set u d # post \<and>
                       map_of (apply_set u d) = map_of d ++ map_of (rev u))"
proof -
  from assms obtain ds where r: "update_first q u (docs c) = (Inr n, ds)" and c1: "c1 = c\<lparr>docs := ds\<rparr>"
    by (auto simp: update_one_def split: prod.splits)
  have "update q u c = (select q c1, c1)"
    using assms by (simp add: update_def)
  moreover have "next_oid c1 = next_oid c" by (simp add: c1)
  moreover note update_first_effect[OF r]
  ultimately show ?thesis
    by (auto simp: find_one_def c1 apply_set_map_of split: option.splits)
qed

text \<open>
  The patch below changes the field the query matches on: the document is patched,
  and the query, run again, finds nothing.
\<close>

theorem update_sets_first_match_then_reselects_witness:
  "update_one [(''a'', Eq (VInt 1))] [(''a'', VInt 2)]
       \<lparr>docs = [[(''_id'', VOid 0), (''a'', VInt 1)]], next_oid = 1\<rparr>
     = (Inr 1, \<lparr>docs = [[(''_id'', VOid 0), (''a'', VInt 2)]], next_oid = 1\<rparr>) \<and>
   update [(''a'', Eq (VInt 1))] [(''a'', VInt 2)]
       \<lparr>docs = [[(''_id'', VOid 0), (''a'', VInt 1)]], next_oid = 1\<rparr>
     = (Inr None, \<lparr>docs = [[(''_id'', VOid 0), (''a'', VInt 2)]], next_oid = 1\<rparr>)"
proof -
  have h: "update_one [(''a'', Eq (VInt 1))] [(''a'', VInt 2)]
       \<lparr>docs = [[(''_id'', VOid 0), (''a'', VInt 1)]], next_oid = 1\<rparr>
     = (Inr 1, \<lparr>docs = [[(''_id'', VOid 0), (''a'', VInt 2)]], next_oid = 1\<rparr>)"
    by (simp add: update_one_def matches_def field_def set_doc_def apply_set_def)
  have s: "select [(''a'', Eq (VInt 1))] \<lparr>docs = [[(''_id'', VOid 0), (''a'', VInt 2)]], next_oid = 1\<rparr> = Inr None"
    by (simp add: select_def find_one_def matches_def field_def)
  from update_sets_first_match_then_reselects[OF h] h s show ?thesis by simp
qed

subsection \<open>\<^verbatim>\<open>update_many\<close>\<close>

text \<open>
  Claim C2, as the source has it.  \<^verbatim>\<open>update_many(batch)\<close> returns the sum of the
  \<^verbatim>\<open>modified_count\<close>s of the items it applies, each applied to the collection the
  items before it left; an item whose query or patch is missing or empty is not
  applied: it adds nothing and leaves the collection alone.
\<close>

theorem update_many_counts_effective_items:
  "update_many [] c = (Inr 0, c) \<and>
   (\<not> effective it \<longrightarrow> update_many (it # data) c = update_many data c) \<and>
   (effective it \<longrightarrow>
      update_many (it # data) c =
        (case coll_update_many (the (item_query it)) (the (item_update it)) c of
           (Inl e, c1) \<Rightarrow> (Inl e, c1)
         | (Inr n, c1) \<Rightarrow>
             (case update_many data c1 of
                (Inl e, c2) \<Rightarrow> (Inl e, c2)
              | (Inr m, c2) \<Rightarrow> (Inr (n + m), c2))))"
proof -
  have "effective it \<Longrightarrow> coll_update_many (the (item_query it)) (the (item_update it)) c = (Inr n, c1) \<Longrightarrow>
     update_many_loop data n c1 = (case update_many_loop data 0 c1 of
                (Inl e, c2) \<Rightarrow> (Inl e, c2)
              | (Inr m, c2) \<Rightarrow> (Inr (n + m), c2))" for n c1
    by (rule update_many_loop_acc)
  then show ?thesis
    by (auto simp: update_many_def split: prod.splits sum.splits)
qed

theorem update_many_counts_effective_items_witness:
  "update_many
     [\<lparr>item_query = Some [(''a'', Eq (VInt 1))], item_update = Some [(''a'', VInt 5)]\<rparr>,
      \<lparr>item_query = None, item_update = Some [(''a'', VInt 7)]\<rparr>,
      \<lparr>item_query = Some [(''a'', In [VInt 1, VInt 5])], item_update = Some [(''b'', VNone)]\<rparr>]
     \<lparr>docs = [[(''_id'', VOid 0), (''a'', VInt 1)], [(''_id'', VOid 1), (''a'', VInt 1)]], next_oid = 2\<rparr>
   = (Inr 4, \<lparr>docs = [[(''_id'', VOid 0), (''a'', VInt 5), (''b'', VNone)],
                        [(''_id'', VOid 1), (''a'', VInt 5), (''b'', VNone)]], next_oid = 2\<rparr>)"
proof -
  let ?i1 = "\<lparr>item_query = Some [(''a'', Eq (VInt 1))], item_update = Some [(''a'', VInt 5)]\<rparr>"
  let ?i2 = "\<lparr>item_query = None, item_update = Some [(''a'', VInt 7)]\<rparr>"
  let ?i3 = "\<lparr>item_query = Some [(''a'', In [VInt 1, VInt 5])], item_update = Some [(''b'', VNone)]\<rparr>"
  let ?c0 = "\<lparr>docs = [[(''_id'', VOid 0), (''a'', VInt 1)], [(''_id'', VOid 1), (''a'', VInt 1)]], next_oid = 2\<rparr>"
  let ?c1 = "\<lparr>docs = [[(''_id'', VOid 0), (''a'', VInt 5)], [(''_id'', VOid 1), (''a'', VInt 5)]], next_oid = 2\<rparr>"
  have e: "effective ?i1" "\<not> effective ?i2" "effective ?i3"
    by (simp_all add: effective_def)
  have u1: "coll_update_many [(''a'', Eq (VInt 1))] [(''a'', VInt 5)] ?c0 = (Inr 2, ?c1)"
    by (simp add: coll_update_many_def matches_def field_def set_doc_def apply_set_def)
  have u3: "coll_update_many [(''a'', In [VInt 1, VInt 5])] [(''b'', VNone)] ?c1 =
     (Inr 2, \<lparr>docs = [[(''_id'', VOid 0), (''a'', VInt 5), (''b'', VNone)],
                        [(''_id'', VOid 1), (''a'', VInt 5), (''b'', VNone)]], next_oid = 2\<rparr>)"
    by (simp add: coll_update_many_def matches_def field_def set_doc_def apply_set_def)
  show ?thesis
    using update_many_counts_effective_items[of ?c0 ?i1 "[?i2, ?i3]"]
      update_many_counts_effective_items[of ?c1 ?i2 "[?i3]"]
      update_many_counts_effective_items[of ?c1 ?i3 "[]"]
      update_many_counts_effective_items[of "\<lparr>docs = [[(''_id'', VOid 0), (''a'', VInt 5), (''b'', VNone)],
                        [(''_id'', VOid 1), (''a'', VInt 5), (''b'', VNone)]], next_oid = 2\<rparr>" ?i3 "[]"]
      e u1 u3
    by simp
qed

text \<open>
  Claim C2 as stated skips only the items that miss their query or patch.  An item
  with the empty query \<^verbatim>\<open>{}\<close> has both; its patch would modify the one document of
  the collection below, and \<^verbatim>\<open>update_many\<close> returns 0 and changes nothing.
\<close>

theorem update_many_empty_query_counterexample:
  "item_query \<lparr>item_query = Some [], item_update = Some [(''a'', VInt 5)]\<rparr> \<noteq> None \<and>
   item_update \<lparr>item_query = Some [], item_update = Some [(''a'', VInt 5)]\<rparr> \<noteq> None \<and>
   coll_update_many [] [(''a'', VInt 5)] \<lparr>docs = [[(''_id'', VOid 0), (''a'', VInt 1)]], next_oid = 1\<rparr>
     = (Inr 1, \<lparr>docs = [[(''_id'', VOid 0), (''a'', VInt 5)]], next_oid = 1\<rparr>) \<and>
   update_many [\<lparr>item_query = Some [], item_update = Some [(''a'', VInt 5)]\<rparr>]
      \<lparr>docs = [[(''_id'', VOid 0), (''a'', VInt 1)]], next_oid = 1\<rparr>
     = (Inr 0, \<lparr>docs = [[(''_id'', VOid 0), (''a'', VInt 1)]], next_oid = 1\<rparr>)"
  by (simp add: coll_update_many_def update_many_def effective_def matches_def set_doc_def apply_set_def)

subsection \<open>\<^verbatim>\<open>delete\<close>\<close>

text \<open>
  Claim C3.  \<^verbatim>\<open>delete(query)\<close> returns the documents that match the query when it
  reads, and then deletes every document that matches: whatever other clients do to
  the collection between the read and the delete (\<open>env\<close>), the result is the snapshot
  of the read, no matching document is left, and a document that was not in the
  collection at the read is not in the result.
\<close>

theorem delete_returns_snapshot:
  "fst (delete_with env q c) = Inr (filter (matches q) (docs c)) \<and>
   docs (snd (delete_with env q c)) = filter (\<lambda>d. \<not> matches q d) (docs (env c)) \<and>
   (\<forall>d \<in> set (docs (snd (delete_with env q c))). \<not> matches q d) \<and>
   (\<forall>d ds. d \<notin> set (docs c) \<and> fst (delete_with env q c) = Inr ds \<longrightarrow> d \<notin> set ds) \<and>
   delete q c = (Inr (filter (matches q) (docs c)), c\<lparr>docs := filter (\<lambda>d. \<not> matches q d) (docs c)\<rparr>)"
  by (auto simp: delete_with_def delete_def select_many_plain delete_many_def)

theorem delete_returns_snapshot_witness:
  "fst (delete_with (\<lambda>c. c\<lparr>docs := docs c @ [[(''_id'', VOid 7), (''a'', VInt 1)]]\<rparr>)
         [(''a'', Eq (VInt 1))]
         \<lparr>docs = [[(''_id'', VOid 0), (''a'', VInt 1)], [(''_id'', VOid 1), (''a'', VInt 2)]], next_oid = 2\<rparr>)
     = Inr [[(''_id'', VOid 0), (''a'', VInt 1)]] \<and>
   docs (snd (delete_with (\<lambda>c. c\<lparr>docs := docs c @ [[(''_id'', VOid 7), (''a'', VInt 1)]]\<rparr>)
         [(''a'', Eq (VInt 1))]
         \<lparr>docs = [[(''_id'', VOid 0), (''a'', VInt 1)], [(''_id'', VOid 1), (''a'', VInt 2)]], next_oid = 2\<rparr>))
     = [[(''_id'', VOid 1), (''a'', VInt 2)]]"
  using delete_returns_snapshot[of "(\<lambda>c. c\<lparr>docs := docs c @ [[(''_id'', VOid 7), (''a'', VInt 1)]]\<rparr>)"
         "[(''a'', Eq (VInt 1))]"
         "\<lparr>docs = [[(''_id'', VOid 0), (''a'', VInt 1)], [(''_id'', VOid 1), (''a'', VInt 2)]], next_oid = 2\<rparr>"]
  by (simp add: matches_def field_def)

subsection \<open>\<^verbatim>\<open>create\<close>\<close>

text \<open>
  Claim C4, as the source has it.  \<^verbatim>\<open>create(values)\<close> tests the truth value of the
  identifier that \<^verbatim>\<open>insert_one\<close> reports (\<^verbatim>\<open>if result.inserted_id:\<close>).  After a
  successful insert the document is in the collection, with the fields of \<open>values\<close> and
  the reported identifier.  When that identifier is true as a condition, \<^verbatim>\<open>create\<close>
  returns this document, as \<^verbatim>\<open>select\<close> reads it back by the identifier, with the
  identifier as a string.  When it is false as a condition (\<^verbatim>\<open>None\<close>, and also a
  caller's \<^verbatim>\<open>0\<close>, \<^verbatim>\<open>''\<close> or \<^verbatim>\<open>False\<close>), \<^verbatim>\<open>create\<close> returns \<^verbatim>\<open>None\<close> and the
  document stays inserted.
\<close>

theorem create_returns_inserted_document:
  assumes "insert_one values c = (Inr i, c1)"
  shows "\<exists>d. docs c1 = docs c @ [d] \<and> map_of d ''_id'' = Some i \<and>
              (\<forall>k. k \<noteq> ''_id'' \<longrightarrow> map_of d k = map_of values k) \<and>
              (truthy i \<longrightarrow>
                 find_one [(''_id'', Eq i)] c1 = Some d \<and>
                 create values c = (Inr (Some (AList.update ''_id'' (VStr (py_str i)) d)), c1)) \<and>
              (\<not> truthy i \<longrightarrow> create values c = (Inr None, c1))"
proof -
  from insert_one_Inr[OF assms] obtain d where
    d: "\<not> has_id i (docs c)" "docs c1 = docs c @ [d]" "map_of d ''_id'' = Some i"
       "\<forall>k. k \<noteq> ''_id'' \<longrightarrow> map_of d k = map_of values k"
    by blast
  have yes: "find_one [(''_id'', Eq i)] c1 = Some d \<and>
             create values c = (Inr (Some (AList.update ''_id'' (VStr (py_str i)) d)), c1)"
    if t: "truthy i"
  proof -
    have m: "matches [(''_id'', Eq i)] d"
      using d(3) by (simp add: matches_id_eq field_def)
    have f: "find_one [(''_id'', Eq i)] c1 = Some d"
      using find_absent_id[OF truthy_not_None[OF t] d(1)] m
      by (simp add: find_one_def d(2) find_append)
    have ne: "d \<noteq> []" using d(3) by auto
    have s1: "stringify_id d = Inr (AList.update ''_id'' (VStr (py_str i)) d)"
      using d(3) by (simp add: stringify_id_def)
    have sel: "select [(''_id'', Eq i)] c1 = Inr (Some (AList.update ''_id'' (VStr (py_str i)) d))"
      using f ne s1 by (simp add: select_def)
    have "create values c = (Inr (Some (AList.update ''_id'' (VStr (py_str i)) d)), c1)"
      using assms t sel stringify_id_twice[OF s1] by (simp add: create_def create_with_def)
    with f show ?thesis by simp
  qed
  have no: "create values c = (Inr None, c1)" if "\<not> truthy i"
    using assms that by (simp add: create_def create_with_def)
  from d(2,3,4) yes no show ?thesis by blast
qed

theorem create_returns_inserted_document_witness:
  "create [(''client_id'', VStr ''acme'')] \<lparr>docs = [], next_oid = 0\<rparr>
     = (Inr (Some [(''_id'', VStr ''000000000000000000000000''), (''client_id'', VStr ''acme'')]),
        \<lparr>docs = [[(''_id'', VOid 0), (''client_id'', VStr ''acme'')]], next_oid = 1\<rparr>) \<and>
   create [(''_id'', VStr []), (''client_id'', VStr ''acme'')] \<lparr>docs = [], next_oid = 0\<rparr>
     = (Inr None, \<lparr>docs = [[(''_id'', VStr []), (''client_id'', VStr ''acme'')]], next_oid = 0\<rparr>)"
proof -
  have i1: "insert_one [(''client_id'', VStr ''acme'')] \<lparr>docs = [], next_oid = 0\<rparr>
     = (Inr (VOid 0), \<lparr>docs = [[(''_id'', VOid 0), (''client_id'', VStr ''acme'')]], next_oid = 1\<rparr>)"
    by (simp add: insert_one_def has_id_def Let_def)
  have i2: "insert_one [(''_id'', VStr []), (''client_id'', VStr ''acme'')] \<lparr>docs = [], next_oid = 0\<rparr>
     = (Inr (VStr []), \<lparr>docs = [[(''_id'', VStr []), (''client_id'', VStr ''acme'')]], next_oid = 0\<rparr>)"
    by (simp add: insert_one_def has_id_def Let_def)
  show ?thesis
    using create_returns_inserted_document[OF i1] create_returns_inserted_document[OF i2] str_oid_0
    by auto
qed

text \<open>
  Claim C4 as stated returns the inserted document whenever the insert reports an
  assigned identifier.  For \<^verbatim>\<open>create(_id=0, client_id='acme')\<close> the insert reports
  the identifier \<^verbatim>\<open>0\<close>, which is not \<^verbatim>\<open>None\<close>, and stores the document; a read by
  that identifier finds it; and \<^verbatim>\<open>create\<close> returns \<^verbatim>\<open>None\<close>.
\<close>

theorem create_falsy_identifier_counterexample:
  "insert_one [(''_id'', VInt 0), (''client_id'', VStr ''acme'')] \<lparr>docs = [], next_oid = 0\<rparr>
     = (Inr (VInt 0),
        \<lparr>docs = [[(''_id'', VInt 0), (''client_id'', VStr ''acme'')]], next_oid = 0\<rparr>) \<and>
   VInt 0 \<noteq> VNone \<and>
   find_one [(''_id'', Eq (VInt 0))]
       \<lparr>docs = [[(''_id'', VInt 0), (''client_id'', VStr ''acme'')]], next_oid = 0\<rparr>
     = Some [(''_id'', VInt 0), (''client_id'', VStr ''acme'')] \<and>
   create [(''_id'', VInt 0), (''client_id'', VStr ''acme'')] \<lparr>docs = [], next_oid = 0\<rparr>
     = (Inr None,
        \<lparr>docs = [[(''_id'', VInt 0), (''client_id'', VStr ''acme'')]], next_oid = 0\<rparr>)"
  by (simp add: insert_one_def has_id_def Let_def find_one_def matches_def field_def
      create_def create_with_def)

text \<open>
  Claim C9.  When the inserted document is gone from the collection by the time
  \<^verbatim>\<open>create\<close> reads it back (another client has deleted it), \<^verbatim>\<open>select\<close> returns
  \<^verbatim>\<open>None\<close>, and \<^verbatim>\<open>create\<close> does not return \<^verbatim>\<open>None\<close>: the assignment to
  \<^verbatim>\<open>document["_id"]\<close> raises \<^verbatim>\<open>TypeError\<close>.
\<close>

theorem create_raises_when_reread_finds_nothing:
  assumes "insert_one values c = (Inr i, c1)" and "truthy i" and "\<not> has_id i (docs (env c1))"
  shows "select [(''_id'', Eq i)] (env c1) = Inr None \<and>
         create_with env values c = (Inl TypeError, env c1)"
proof -
  have "select [(''_id'', Eq i)] (env c1) = Inr None"
    using find_absent_id[OF truthy_not_None[OF assms(2)] assms(3)]
    by (simp add: select_def find_one_def)
  with assms(1,2) show ?thesis
    by (simp add: create_with_def Let_def)
qed

theorem create_raises_when_reread_finds_nothing_witness:
  "create_with (\<lambda>c. c\<lparr>docs := []\<rparr>) [(''client_id'', VStr ''acme'')] \<lparr>docs = [], next_oid = 0\<rparr>
     = (Inl TypeError, \<lparr>docs = [], next_oid = 1\<rparr>)"
proof -
  have i1: "insert_one [(''client_id'', VStr ''acme'')] \<lparr>docs = [], next_oid = 0\<rparr>
     = (Inr (VOid 0), \<lparr>docs = [[(''_id'', VOid 0), (''client_id'', VStr ''acme'')]], next_oid = 1\<rparr>)"
    by (simp add: insert_one_def has_id_def Let_def)
  have t: "truthy (VOid 0)" by simp
  have h: "\<not> has_id (VOid 0) (docs ((\<lambda>c. c\<lparr>docs := []\<rparr>)
       \<lparr>docs = [[(''_id'', VOid 0), (''client_id'', VStr ''acme'')]], next_oid = 1\<rparr>))"
    by (simp add: has_id_def)
  from create_raises_when_reread_finds_nothing[of "[(''client_id'', VStr ''acme'')]"
      "\<lparr>docs = [], next_oid = 0\<rparr>" "VOid 0"
      "\<lparr>docs = [[(''_id'', VOid 0), (''client_id'', VStr ''acme'')]], next_oid = 1\<rparr>"
      "\<lambda>c. c\<lparr>docs := []\<rparr>"] i1 t h
  show ?thesis by simp
qed

subsection \<open>Identifiers in results\<close>

text \<open>
  Claim C10.  A document returned by \<^verbatim>\<open>select\<close> or \<^verbatim>\<open>create\<close> has a string as its
  identifier.  The documents returned by \<^verbatim>\<open>select_many\<close>, and so by \<^verbatim>\<open>create_many\<close>
  and \<^verbatim>\<open>delete\<close>, are documents of the collection as they are stored, identifier
  included.
\<close>

theorem identifier_string_in_select_native_in_select_many:
  "(select q c = Inr (Some d) \<longrightarrow> (\<exists>s. map_of d ''_id'' = Some (VStr s))) \<and>
   (create values c = (Inr (Some d), c') \<longrightarrow> (\<exists>s. map_of d ''_id'' = Some (VStr s))) \<and>
   (select_many q off lim c = Inr ds \<longrightarrow> set ds \<subseteq> set (docs c)) \<and>
   (create_many data c = (Inr ds, c') \<longrightarrow> set ds \<subseteq> set (docs c')) \<and>
   (delete q c = (Inr ds, c') \<longrightarrow> set ds \<subseteq> set (docs c))"
proof (intro conjI impI)
  assume "create_many data c = (Inr ds, c')"
  then show "set ds \<subseteq> set (docs c')"
    by (auto simp: create_many_def split: prod.splits sum.splits dest!: select_many_subset)
next
  assume "delete q c = (Inr ds, c')"
  then show "set ds \<subseteq> set (docs c)"
    by (auto simp: delete_def delete_with_def select_many_plain delete_many_def)
qed (auto simp: create_def dest: select_Some_id create_with_Some_id select_many_subset)

text \<open>
  On a stored document whose identifier is an ObjectId, \<^verbatim>\<open>select\<close> gives the
  identifier as a string and \<^verbatim>\<open>select_many\<close> gives the ObjectId.
\<close>

theorem identifier_string_in_select_native_in_select_many_witness:
  "select [(''a'', Eq (VInt 1))] \<lparr>docs = [[(''_id'', VOid 1), (''a'', VInt 1)]], next_oid = 2\<rparr>
     = Inr (Some [(''_id'', VStr ''000000000000000000000001''), (''a'', VInt 1)]) \<and>
   select_many [(''a'', Eq (VInt 1))] None None \<lparr>docs = [[(''_id'', VOid 1), (''a'', VInt 1)]], next_oid = 2\<rparr>
     = Inr [[(''_id'', VOid 1), (''a'', VInt 1)]] \<and>
   set [[(''_id'', VOid 1), (''a'', VInt 1)]]
     \<subseteq> set (docs \<lparr>docs = [[(''_id'', VOid 1), (''a'', VInt 1)]], next_oid = 2\<rparr>) \<and>
   (\<exists>s. map_of [(''_id'', VStr ''000000000000000000000001''), (''a'', VInt 1)] ''_id'' = Some (VStr s))"
proof -
  let ?c = "\<lparr>docs = [[(''_id'', VOid 1), (''a'', VInt 1)]], next_oid = 2\<rparr>"
  have s: "select [(''a'', Eq (VInt 1))] ?c
     = Inr (Some [(''_id'', VStr ''000000000000000000000001''), (''a'', VInt 1)])"
    by (simp add: select_def find_one_def matches_def field_def stringify_id_def str_oid_1)
  have m: "select_many [(''a'', Eq (VInt 1))] None None ?c = Inr [[(''_id'', VOid 1), (''a'', VInt 1)]]"
    by (simp add: select_many_plain matches_def field_def)
  from identifier_string_in_select_native_in_select_many[of "[(''a'', Eq (VInt 1))]" ?c
      "[(''_id'', VStr ''000000000000000000000001''), (''a'', VInt 1)]" "[]" ?c None None
      "[[(''_id'', VOid 1), (''a'', VInt 1)]]" "[]"] s m
  show ?thesis by simp
qed

section \<open>Properties of the user service\<close>

lemma model_dump_no_id: "map_of (model_dump_exclude_none user) ''_id'' = None"
  by (simp add: model_dump_exclude_none_def model_dump_def)

lemma model_dump_exclude_none_no_None: "VNone \<notin> snd ` set (model_dump_exclude_none user)"
  by (auto simp: model_dump_exclude_none_def)

lemma map_of_filter_not_None:
  "distinct (map fst xs) \<Longrightarrow>
   map_of (filter (\<lambda>(k, v). v \<noteq> VNone) xs) k =
     (case map_of xs k of None \<Rightarrow> None | Some v \<Rightarrow> if v = VNone then None else Some v)"
proof (induction xs)
  case Nil
  then show ?case by simp
next
  case (Cons a xs)
  obtain k' v' where a: "a = (k', v')" by (cases a)
  from Cons.prems have "map_of xs k' = None"
    by (simp add: a map_of_eq_None_iff)
  with Cons show ?case by (auto simp: a)
qed

lemma model_dump_distinct: "distinct (map fst (model_dump user))"
  by (simp add: model_dump_def)

text \<open>
  Claim C7, as the source has it.  \<^verbatim>\<open>UserService.create\<close> hands to the repository's
  \<^verbatim>\<open>create\<close> the fields of the input whose value is not \<^verbatim>\<open>None\<close>, each with its
  value, and no others; so the document that is inserted has no field that is
  \<^verbatim>\<open>None\<close>, and has every other field of the input, set or not, empty or not.
\<close>

theorem create_strips_exactly_none_fields:
  "user_service_create user c = create (model_dump_exclude_none user) c \<and>
   VNone \<notin> snd ` set (model_dump_exclude_none user) \<and>
   (\<forall>k. map_of (model_dump_exclude_none user) k =
      (case map_of (model_dump user) k of
         None \<Rightarrow> None
       | Some v \<Rightarrow> if v = VNone then None else Some v)) \<and>
   (\<forall>i c1. insert_one (model_dump_exclude_none user) c = (Inr i, c1) \<longrightarrow>
      (\<exists>d. docs c1 = docs c @ [d] \<and> VNone \<notin> snd ` set d \<and>
           (\<forall>k. k \<noteq> ''_id'' \<longrightarrow> map_of d k = map_of (model_dump_exclude_none user) k)))"
proof (intro conjI allI impI)
  show "user_service_create user c = create (model_dump_exclude_none user) c"
    by (simp add: user_service_create_def user_repository_create_def)
  show "VNone \<notin> snd ` set (model_dump_exclude_none user)"
    by (rule model_dump_exclude_none_no_None)
  show "map_of (model_dump_exclude_none user) k =
      (case map_of (model_dump user) k of
         None \<Rightarrow> None
       | Some v \<Rightarrow> if v = VNone then None else Some v)" for k
    unfolding model_dump_exclude_none_def
    by (rule map_of_filter_not_None[OF model_dump_distinct])
next
  fix i c1
  assume a: "insert_one (model_dump_exclude_none user) c = (Inr i, c1)"
  let ?vs = "model_dump_exclude_none user"
  from a have d: "docs c1 = docs c @ [(''_id'', VOid (next_oid c)) # ?vs]"
    by (auto simp: insert_one_def model_dump_no_id Let_def split: if_splits)
  have "VNone \<notin> snd ` set ((''_id'', VOid (next_oid c)) # ?vs)"
    using model_dump_exclude_none_no_None[of user] by auto
  moreover have "\<forall>k. k \<noteq> ''_id'' \<longrightarrow> map_of ((''_id'', VOid (next_oid c)) # ?vs) k = map_of ?vs k"
    by simp
  ultimately show "\<exists>d. docs c1 = docs c @ [d] \<and> VNone \<notin> snd ` set d \<and>
           (\<forall>k. k \<noteq> ''_id'' \<longrightarrow> map_of d k = map_of (model_dump_exclude_none user) k)"
    using d by blast
qed

theorem create_strips_exactly_none_fields_witness:
  "model_dump_exclude_none
     \<lparr>client_id = ''acme'', crm_url = [], crm_api_key = [], module_name = [],
      module_code = [], active = None, freeze = Some False\<rparr> =
     [(''client_id'', VStr ''acme''), (''crm_url'', VStr []), (''crm_api_key'', VStr []),
      (''module_name'', VStr []), (''module_code'', VStr []), (''freeze'', VBool False)] \<and>
   map_of (model_dump_exclude_none
     \<lparr>client_id = ''acme'', crm_url = [], crm_api_key = [], module_name = [],
      module_code = [], active = None, freeze = Some False\<rparr>) ''active'' = None"
  using create_strips_exactly_none_fields[of
     "\<lparr>client_id = ''acme'', crm_url = [], crm_api_key = [], module_name = [],
      module_code = [], active = None, freeze = Some False\<rparr>" "\<lparr>docs = [], next_oid = 0\<rparr>"]
  by (simp add: model_dump_exclude_none_def model_dump_def opt_bool_def)

text \<open>
  Claim C7 as stated has the unset and the empty fields stripped.  The input with no
  field set has five empty strings and two booleans at their default; all seven
  fields are handed to the repository and are in the inserted document.
\<close>

theorem create_keeps_unset_and_empty_fields_counterexample:
  "model_dump_exclude_none UserDTO_unset =
     [(''client_id'', VStr []), (''crm_url'', VStr []), (''crm_api_key'', VStr []),
      (''module_name'', VStr []), (''module_code'', VStr []),
      (''active'', VBool False), (''freeze'', VBool False)] \<and>
   docs (snd (user_service_create UserDTO_unset \<lparr>docs = [], next_oid = 0\<rparr>)) =
     [[(''_id'', VOid 0), (''client_id'', VStr []), (''crm_url'', VStr []),
       (''crm_api_key'', VStr []), (''module_name'', VStr []), (''module_code'', VStr []),
       (''active'', VBool False), (''freeze'', VBool False)]]"
proof -
  have m: "model_dump_exclude_none UserDTO_unset =
     [(''client_id'', VStr []), (''crm_url'', VStr []), (''crm_api_key'', VStr []),
      (''module_name'', VStr []), (''module_code'', VStr []),
      (''active'', VBool False), (''freeze'', VBool False)]"
    by (simp add: model_dump_exclude_none_def model_dump_def UserDTO_unset_def opt_bool_def)
  show ?thesis
    unfolding user_service_create_def user_repository_create_def m
    by (simp add: create_def create_with_def insert_one_def has_id_def Let_def select_def
        find_one_def matches_def field_def stringify_id_def)
qed

section \<open>Properties of the cache\<close>

lemma get_many_loop_result:
  assumes "\<forall>k\<in>set keys. \<forall>data. f k = Some data \<longrightarrow> (\<exists>v. ld data = Inr v)"
  shows "\<exists>res. get_many_loop ld (zip keys (map f keys)) acc = Inr res \<and>
           (\<forall>k. map_of res k =
              (if k \<in> set keys then
                 (case f k of
                    None \<Rightarrow> map_of acc k
                  | Some data \<Rightarrow> (case ld data of Inl e \<Rightarrow> None | Inr v \<Rightarrow> Some v))
               else map_of acc k))"
  using assms
proof (induction keys arbitrary: acc)
  case Nil
  then show ?case by simp
next
  case (Cons key keys)
  show ?case
  proof (cases "f key")
    case None
    from Cons.IH[of acc] Cons.prems obtain res where
      r: "get_many_loop ld (zip keys (map f keys)) acc = Inr res"
         "\<forall>k. map_of res k =
              (if k \<in> set keys then
                 (case f k of
                    None \<Rightarrow> map_of acc k
                  | Some data \<Rightarrow> (case ld data of Inl e \<Rightarrow> None | Inr v \<Rightarrow> Some v))
               else map_of acc k)"
      by auto
    have "get_many_loop ld (zip (key # keys) (map f (key # keys))) acc = Inr res"
      using None r(1) by simp
    moreover have "map_of res k =
              (if k \<in> set (key # keys) then
                 (case f k of
                    None \<Rightarrow> map_of acc k
                  | Some data \<Rightarrow> (case ld data of Inl e \<Rightarrow> None | Inr v \<Rightarrow> Some v))
               else map_of acc k)" for k
      using r(2)[rule_format, of k] None
      by (cases "k = key") (simp_all split: option.splits)
    ultimately show ?thesis by blast
  next
    case (Some data)
    with Cons.prems obtain v where v: "ld data = Inr v" by auto
    from Cons.IH[of "AList.update key v acc"] Cons.prems obtain res where
      r: "get_many_loop ld (zip keys (map f keys)) (AList.update key v acc) = Inr res"
         "\<forall>k. map_of res k =
              (if k \<in> set keys then
                 (case f k of
                    None \<Rightarrow> map_of (AList.update key v acc) k
                  | Some data \<Rightarrow> (case ld data of Inl e \<Rightarrow> None | Inr v \<Rightarrow> Some v))
               else map_of (AList.update key v acc) k)"
      by auto
    have "get_many_loop ld (zip (key # keys) (map f (key # keys))) acc = Inr res"
      using Some v r(1) by simp
    moreover have "map_of res k =
              (if k \<in> set (key # keys) then
                 (case f k of
                    None \<Rightarrow> map_of acc k
                  | Some data \<Rightarrow> (case ld data of Inl e \<Rightarrow> None | Inr v \<Rightarrow> Some v))
               else map_of acc k)" for k
      using r(2)[rule_format, of k] Some v
      by (cases "k = key") (simp_all add: update_conv' split: option.splits)
    ultimately show ?thesis by blast
  qed
qed

text \<open>
  Claim C6.  On a connected client no operation of the cache raises: \<^verbatim>\<open>get\<close>,
  \<^verbatim>\<open>set\<close>, \<^verbatim>\<open>delete\<close>, \<^verbatim>\<open>expire\<close> and \<^verbatim>\<open>get_many\<close> always return a value.  When
  the store fails the command, \<^verbatim>\<open>get\<close> returns \<^verbatim>\<open>None\<close>, \<^verbatim>\<open>set\<close>, \<^verbatim>\<open>delete\<close> and
  \<^verbatim>\<open>expire\<close> return \<^verbatim>\<open>False\<close>, and \<^verbatim>\<open>get_many\<close> returns the empty mapping; an
  error of the serializer is turned into the same defaults.
\<close>

theorem cache_errors_become_defaults:
  assumes "client ch = Some r"
  shows "(\<exists>x. cache_get ch key = Inr x) \<and>
         (\<exists>x. fst (cache_set ch key v ttl) = Inr x) \<and>
         (\<exists>x. fst (cache_delete ch key) = Inr x) \<and>
         (\<exists>x. fst (cache_expire ch key t) = Inr x) \<and>
         (\<exists>x. cache_get_many ch keys = Inr x) \<and>
         (fault r \<noteq> None \<longrightarrow>
            cache_get ch key = Inr None \<and>
            fst (cache_set ch key v ttl) = Inr False \<and>
            fst (cache_delete ch key) = Inr False \<and>
            fst (cache_expire ch key t) = Inr False \<and>
            cache_get_many ch keys = Inr []) \<and>
         ((\<exists>e. dumps ch v = Inl e) \<longrightarrow> fst (cache_set ch key v ttl) = Inr False) \<and>
         (\<forall>data. map_of (entries r) key = Some data \<and> (\<exists>e. loads ch data = Inl e) \<longrightarrow>
            cache_get ch key = Inr None)"
proof (intro conjI impI allI)
  show "\<exists>x. cache_get ch key = Inr x"
    using assms by (auto simp: cache_get_def split: sum.splits option.splits)
  show "\<exists>x. fst (cache_set ch key v ttl) = Inr x"
    using assms by (auto simp: cache_set_def split: sum.splits option.splits prod.splits)
  show "\<exists>x. fst (cache_delete ch key) = Inr x"
    using assms by (auto simp: cache_delete_def split: sum.splits prod.splits)
  show "\<exists>x. fst (cache_expire ch key t) = Inr x"
    using assms by (auto simp: cache_expire_def split: sum.splits prod.splits)
  show "\<exists>x. cache_get_many ch keys = Inr x"
    using assms by (auto simp: cache_get_many_def split: sum.splits)
next
  assume "fault r \<noteq> None"
  then obtain e where f: "fault r = Some e" by auto
  show "cache_get ch key = Inr None"
    using assms f by (simp add: cache_get_def redis_get_def)
  show "fst (cache_set ch key v ttl) = Inr False"
    using assms f
    by (auto simp: cache_set_def redis_set_def redis_setex_def split: sum.splits option.splits)
  show "fst (cache_delete ch key) = Inr False"
    using assms f by (simp add: cache_delete_def redis_delete_def)
  show "fst (cache_expire ch key t) = Inr False"
    using assms f by (simp add: cache_expire_def redis_expire_def)
  show "cache_get_many ch keys = Inr []"
    using assms f by (simp add: cache_get_many_def redis_mget_def)
next
  assume "\<exists>e. dumps ch v = Inl e"
  then show "fst (cache_set ch key v ttl) = Inr False"
    using assms by (auto simp: cache_set_def)
next
  fix data
  assume "map_of (entries r) key = Some data \<and> (\<exists>e. loads ch data = Inl e)"
  then show "cache_get ch key = Inr None"
    using assms by (auto simp: cache_get_def redis_get_def split: option.splits)
qed

theorem cache_errors_become_defaults_witness:
  "cache_get \<lparr>dumps = Inr, loads = Inr,
       client = Some \<lparr>entries = [(''a'', ''1'')], expires = [], fault = Some RedisError\<rparr>\<rparr> ''a''
     = Inr (None :: string option) \<and>
   fst (cache_set \<lparr>dumps = Inr, loads = Inr,
       client = Some \<lparr>entries = [(''a'', ''1'')], expires = [], fault = Some RedisError\<rparr>\<rparr>
       ''a'' ''2'' (Some 60)) = Inr False \<and>
   fst (cache_delete \<lparr>dumps = Inr :: string \<Rightarrow> exc + string, loads = Inr,
       client = Some \<lparr>entries = [(''a'', ''1'')], expires = [], fault = Some RedisError\<rparr>\<rparr> ''a'')
     = Inr False \<and>
   fst (cache_expire \<lparr>dumps = Inr :: string \<Rightarrow> exc + string, loads = Inr,
       client = Some \<lparr>entries = [(''a'', ''1'')], expires = [], fault = Some RedisError\<rparr>\<rparr> ''a'' 60)
     = Inr False \<and>
   cache_get_many \<lparr>dumps = Inr, loads = Inr,
       client = Some \<lparr>entries = [(''a'', ''1'')], expires = [], fault = Some RedisError\<rparr>\<rparr> [''a'', ''b'']
     = Inr ([] :: (string \<times> string) list)"
  using cache_errors_become_defaults[of
      "\<lparr>dumps = Inr, loads = Inr,
        client = Some \<lparr>entries = [(''a'', ''1'')], expires = [], fault = Some RedisError\<rparr>\<rparr>"
      "\<lparr>entries = [(''a'', ''1'')], expires = [], fault = Some RedisError\<rparr>"
      "''a''" "''2''" "Some 60" 60 "[''a'', ''b'']"]
  by simp

text \<open>
  Claim C8.  When the store answers and the stored bytes of the requested keys
  deserialize, \<^verbatim>\<open>get_many(keys)\<close> returns a mapping whose keys are exactly the
  requested keys that are in the cache, each with its deserialized value; a requested
  key that is absent has no entry.
\<close>

theorem get_many_returns_present_keys:
  assumes "client ch = Some r" and "fault r = None"
    and "\<forall>k\<in>set keys. \<forall>data. map_of (entries r) k = Some data \<longrightarrow> (\<exists>v. loads ch data = Inr v)"
  shows "\<exists>result. cache_get_many ch keys = Inr result \<and>
           (\<forall>k. map_of result k =
              (if k \<in> set keys then
                 (case map_of (entries r) k of
                    None \<Rightarrow> None
                  | Some data \<Rightarrow> (case loads ch data of Inl e \<Rightarrow> None | Inr v \<Rightarrow> Some v))
               else None)) \<and>
           fst ` set result = {k \<in> set keys. map_of (entries r) k \<noteq> None}"
proof (cases "keys = []")
  case True
  with assms show ?thesis by (simp add: cache_get_many_def)
next
  case False
  from get_many_loop_result[OF assms(3), of "[]"] obtain res where
    r1: "get_many_loop (loads ch) (zip keys (map (map_of (entries r)) keys)) [] = Inr res"
    and r0: "\<forall>k. map_of res k =
              (if k \<in> set keys then
                 (case map_of (entries r) k of
                    None \<Rightarrow> map_of [] k
                  | Some data \<Rightarrow> (case loads ch data of Inl e \<Rightarrow> None | Inr v \<Rightarrow> Some v))
               else map_of [] k)"
    by blast
  from r0 have r2: "\<forall>k. map_of res k =
              (if k \<in> set keys then
                 (case map_of (entries r) k of
                    None \<Rightarrow> None
                  | Some data \<Rightarrow> (case loads ch data of Inl e \<Rightarrow> None | Inr v \<Rightarrow> Some v))
               else None)"
    by (simp cong: option.case_cong)
  note r = r1 r2
  have c: "cache_get_many ch keys = Inr res"
    using assms(1,2) False r(1) by (simp add: cache_get_many_def redis_mget_def)
  have "k \<in> fst ` set res \<longleftrightarrow> k \<in> {k \<in> set keys. map_of (entries r) k \<noteq> None}" for k
  proof -
    have "k \<in> fst ` set res \<longleftrightarrow> map_of res k \<noteq> None"
      by (simp add: map_of_eq_None_iff)
    also have "\<dots> \<longleftrightarrow> k \<in> set keys \<and> map_of (entries r) k \<noteq> None"
      using r(2)[rule_format, of k] assms(3)
      by (auto split: option.splits sum.splits)
    finally show ?thesis by simp
  qed
  then have "fst ` set res = {k \<in> set keys. map_of (entries r) k \<noteq> None}"
    by blast
  with c r(2) show ?thesis by blast
qed

theorem get_many_returns_present_keys_witness:
  "cache_get_many \<lparr>dumps = Inr, loads = Inr,
       client = Some \<lparr>entries = [(''a'', ''1'')], expires = [], fault = None\<rparr>\<rparr> [''a'', ''b'']
     = Inr [(''a'', ''1'')]"
proof -
  let ?r = "\<lparr>entries = [(''a'', ''1'')], expires = [], fault = None\<rparr>"
  let ?ch = "\<lparr>dumps = Inr :: string \<Rightarrow> exc + string, loads = Inr :: string \<Rightarrow> exc + string,
       client = Some ?r\<rparr>"
  have h: "\<forall>k\<in>set [''a'', ''b'']. \<forall>data. map_of (entries ?r) k = Some data \<longrightarrow>
             (\<exists>v. loads ?ch data = Inr v)"
    by simp
  have c: "client ?ch = Some ?r" by simp
  have f: "fault ?r = None" by simp
  from get_many_returns_present_keys[OF c f h]
  obtain result where "cache_get_many ?ch [''a'', ''b''] = Inr result" by blast
  moreover have "cache_get_many ?ch [''a'', ''b''] = Inr [(''a'', ''1'')]"
    by (simp add: cache_get_many_def redis_mget_def)
  ultimately show ?thesis by simp
qed

section \<open>Properties of the serializer\<close>

subsection \<open>Integers and strings\<close>

lemma nat_lt16:
  "d < 16 \<Longrightarrow> d = 0 \<or> d = 1 \<or> d = 2 \<or> d = 3 \<or> d = 4 \<or> d = 5 \<or> d = 6 \<or> d = 7 \<or>
     d = 8 \<or> d = 9 \<or> d = 10 \<or> d = 11 \<or> d = 12 \<or> d = 13 \<or> d = 14 \<or> d = (15::nat)"
  by arith

lemma nat_lt10:
  "d < 10 \<Longrightarrow> d = 0 \<or> d = 1 \<or> d = 2 \<or> d = 3 \<or> d = 4 \<or> d = 5 \<or> d = 6 \<or> d = 7 \<or>
     d = 8 \<or> d = (9::nat)"
  by arith

lemma hex_val_digit_char: "d < 16 \<Longrightarrow> hex_val (digit_char d) = Some d"
  using nat_lt16[of d] by (auto simp: digit_char_def hex_val_def)

lemma digit_char_digit:
  "d < 10 \<Longrightarrow> is_digit (digit_char d) \<and> digit_val (digit_char d) = d \<and>
     (digit_char d = CHR ''0'' \<longrightarrow> d = 0)"
  using nat_lt10[of d] by (auto simp: digit_char_def is_digit_def digit_val_def)

lemma nat_of_digits_snoc: "nat_of_digits (ds @ [c]) = 10 * nat_of_digits ds + digit_val c"
  by (simp add: nat_of_digits_def)

lemma str_nat_props:
  "list_all is_digit (str_nat n) \<and> str_nat n \<noteq> [] \<and> nat_of_digits (str_nat n) = n \<and>
   (hd (str_nat n) = CHR ''0'' \<longrightarrow> n = 0) \<and> (n < 10 \<longrightarrow> length (str_nat n) = 1)"
proof (induction n rule: str_nat.induct)
  case (1 n)
  show ?case
  proof (cases "n < 10")
    case True
    then have s: "str_nat n = [digit_char n]" by (simp add: str_nat.simps[of n])
    from digit_char_digit[OF True] show ?thesis
      by (simp add: s nat_of_digits_def)
  next
    case False
    then have s: "str_nat n = str_nat (n div 10) @ [digit_char (n mod 10)]"
      by (simp add: str_nat.simps[of n])
    have m: "n mod 10 < 10" by simp
    from False have "n div 10 \<noteq> 0" by simp
    with "1.IH"[OF False] digit_char_digit[OF m] False show ?thesis
      by (simp add: s nat_of_digits_snoc)
  qed
qed

lemma takeWhile_digits:
  "list_all is_digit ds \<Longrightarrow> rest = [] \<or> \<not> is_digit (hd rest) \<Longrightarrow>
     takeWhile is_digit (ds @ rest) = ds \<and> dropWhile is_digit (ds @ rest) = rest"
  by (induction ds) (cases rest; auto)+

lemma parse_nat_str_nat:
  assumes "int_stop rest"
  shows "parse_nat (str_nat n @ rest) = Some (n, rest)"
proof -
  from assms have r: "rest = [] \<or> \<not> is_digit (hd rest)" by (auto simp: int_stop_def)
  from str_nat_props[of n] have p: "list_all is_digit (str_nat n)" "str_nat n \<noteq> []"
     "nat_of_digits (str_nat n) = n" "hd (str_nat n) = CHR ''0'' \<longrightarrow> n = 0"
     "n < 10 \<longrightarrow> length (str_nat n) = 1"
    by auto
  from takeWhile_digits[OF p(1) r] p assms show ?thesis
    by (auto simp: parse_nat_def Let_def int_stop_def)
qed

lemma str_nat_hd_digit: "is_digit (hd (str_nat n))"
  using str_nat_props[of n] by (cases "str_nat n") auto

lemma parse_int_str_int:
  assumes "int_stop rest" and "- (2 ^ 63) \<le> i" and "i < 2 ^ 64"
  shows "parse_int (str_int i @ rest) = Some (i, rest)"
proof (cases "i < 0")
  case True
  with assms(2) have "int (nat (- i)) \<le> 2 ^ 63" by simp
  with True parse_nat_str_nat[OF assms(1), of "nat (- i)"] show ?thesis
    by (simp add: parse_int_def str_int_def)
next
  case False
  obtain c r where cr: "str_nat (nat i) = c # r"
    using str_nat_props[of "nat i"] by (cases "str_nat (nat i)") auto
  from str_nat_hd_digit[of "nat i"] cr have "is_digit c" by simp
  then have "c \<noteq> CHR ''-''" by (auto simp: is_digit_def)
  moreover from False assms(3) have "int (nat i) < 2 ^ 64" by simp
  moreover note parse_nat_str_nat[OF assms(1), of "nat i"]
  ultimately show ?thesis
    using False cr by (simp add: parse_int_def str_int_def)
qed

lemma hex4_00:
  assumes "n < 32"
  shows "hex4 [CHR ''0'', CHR ''0'', digit_char (n div 16), digit_char (n mod 16)] = Some n"
proof -
  have a: "n div 16 < 16" using assms by simp
  have b: "n mod 16 < 16" by simp
  have z: "hex_val CHR ''0'' = Some 0" by (simp add: hex_val_def)
  show ?thesis
    by (simp add: hex4_def z hex_val_digit_char[OF a] hex_val_digit_char[OF b])
qed

lemma parse_u_00:
  assumes "n < 32"
  shows "parse_u (CHR ''0'' # CHR ''0'' # digit_char (n div 16) # digit_char (n mod 16) # r)
           = Some (n, r)"
  using assms by (simp add: parse_u_def hex4_00)

lemma parse_str_escape_char:
  "parse_str (escape_char c @ r) =
     (case parse_str r of None \<Rightarrow> None | Some (s, rest) \<Rightarrow> Some (c # s, rest))"
proof -
  consider (q) "c = CHR 0x22" | (bs) "c = CHR 0x5C" | (b) "c = CHR 0x08" | (t) "c = CHR 0x09"
    | (n) "c = CHR 0x0A" | (f) "c = CHR 0x0C" | (r) "c = CHR 0x0D"
    | (u) "c \<notin> {CHR 0x22, CHR 0x5C, CHR 0x08, CHR 0x09, CHR 0x0A, CHR 0x0C, CHR 0x0D}"
          "(of_char c :: nat) < 32"
    | (p) "c \<notin> {CHR 0x22, CHR 0x5C}" "\<not> (of_char c :: nat) < 32"
    by auto
  then show ?thesis
  proof cases
    case u
    have "utf8 (of_char c) = [c]" using u(2) by (simp add: utf8_def)
    with u parse_u_00[OF u(2), of r] show ?thesis
      by (simp add: escape_char_def parse_str.simps split: option.splits)
  next
    case p
    then show ?thesis
      by (auto simp: escape_char_def parse_str.simps split: option.splits)
  qed (simp_all add: escape_char_def parse_str.simps split: option.splits)
qed

lemma parse_str_escaped:
  "parse_str (concat (map escape_char s) @ CHR 0x22 # rest) = Some (s, rest)"
  by (induction s) (simp_all add: parse_str_escape_char parse_str.simps)

lemma parse_str_enc_str:
  "enc_str s @ rest = CHR 0x22 # t \<Longrightarrow> parse_str t = Some (s, rest)"
  using parse_str_escaped[of s rest] by (simp add: enc_str_def)

subsection \<open>Values\<close>

lemma delim_int_stop: "delim rest \<Longrightarrow> int_stop rest"
  by (auto simp: delim_def int_stop_def is_digit_def)

lemma delim_skip_ws: "delim rest \<Longrightarrow> skip_ws rest = rest"
  by (cases rest) (auto simp: delim_def skip_ws_def is_ws_def)

lemma value_step_null: "value_step e m (''null'' @ rest) = Some (PNone, rest)"
  by (simp add: value_step_def skip_ws_def is_ws_def)

lemma value_step_true: "value_step e m (''true'' @ rest) = Some (PBool True, rest)"
  by (simp add: value_step_def skip_ws_def is_ws_def)

lemma value_step_false: "value_step e m (''false'' @ rest) = Some (PBool False, rest)"
  by (simp add: value_step_def skip_ws_def is_ws_def)

lemma value_step_str:
  "value_step e m (CHR 0x22 # r) =
     (case parse_str r of None \<Rightarrow> None | Some (s, rest) \<Rightarrow> Some (PStr s, rest))"
  by (simp add: value_step_def skip_ws_def is_ws_def)

lemma value_step_int:
  assumes "is_digit c \<or> c = CHR ''-''"
  shows "value_step e m (c # r) =
     (case parse_int (c # r) of None \<Rightarrow> None | Some (i, rest) \<Rightarrow> Some (PInt i, rest))"
proof -
  have n: "48 \<le> (of_char c :: nat) \<and> (of_char c :: nat) \<le> 57 \<or> c = CHR ''-''"
    using assms by (simp add: is_digit_def)
  have w: "\<not> is_ws c" using n by (auto simp: is_ws_def)
  have d: "c \<noteq> CHR ''n''" "c \<noteq> CHR ''t''" "c \<noteq> CHR ''f''" "c \<noteq> CHR 0x22"
    "c \<noteq> CHR ''[''" "c \<noteq> CHR ''{''"
    using n by auto
  have s: "skip_ws (c # r) = c # r" using w by (simp add: skip_ws_def)
  show ?thesis
    unfolding value_step_def s using d by simp
qed

lemma value_step_list_empty: "value_step e m (CHR ''['' # CHR '']'' # rest) = Some (PList [], rest)"
  by (simp add: value_step_def skip_ws_def is_ws_def)

lemma value_step_dict_empty: "value_step e m (CHR ''{'' # CHR ''}'' # rest) = Some (PDict [], rest)"
  by (simp add: value_step_def skip_ws_def is_ws_def)

lemma value_step_list:
  "\<not> is_ws c \<Longrightarrow> c \<noteq> CHR '']'' \<Longrightarrow>
   value_step e m (CHR ''['' # c # r) =
     (case e (c # r) of None \<Rightarrow> None | Some (xs, rest) \<Rightarrow> Some (PList xs, rest))"
  by (simp add: value_step_def skip_ws_def is_ws_def)

lemma value_step_dict:
  "\<not> is_ws c \<Longrightarrow> c \<noteq> CHR ''}'' \<Longrightarrow>
   value_step e m (CHR ''{'' # c # r) =
     (case m (c # r) of
        None \<Rightarrow> None
      | Some (kvs, rest) \<Rightarrow> Some (PDict (fold (\<lambda>(k, v). AList.update k v) kvs []), rest))"
  by (simp add: value_step_def skip_ws_def is_ws_def)

lemma elems_step_last:
  "val s = Some (x, CHR '']'' # r) \<Longrightarrow> elems_step val elems s = Some ([x], r)"
  by (simp add: elems_step_def skip_ws_def is_ws_def)

lemma elems_step_more:
  "val s = Some (x, CHR '','' # r) \<Longrightarrow>
   elems_step val elems s =
     (case elems r of None \<Rightarrow> None | Some (xs, rest') \<Rightarrow> Some (x # xs, rest'))"
  by (simp add: elems_step_def skip_ws_def is_ws_def)

lemma members_step_last:
  "parse_str t = Some (k, CHR '':'' # r2) \<Longrightarrow> val r2 = Some (v, CHR ''}'' # r) \<Longrightarrow>
   members_step val members (CHR 0x22 # t) = Some ([(k, v)], r)"
  by (simp add: members_step_def skip_ws_def is_ws_def)

lemma members_step_more:
  "parse_str t = Some (k, CHR '':'' # r2) \<Longrightarrow> val r2 = Some (v, CHR '','' # r) \<Longrightarrow>
   members_step val members (CHR 0x22 # t) =
     (case members r of None \<Rightarrow> None | Some (kvs, rest') \<Rightarrow> Some ((k, v) # kvs, rest'))"
  by (simp add: members_step_def skip_ws_def is_ws_def)

lemma parse_elems_enc:
  assumes "\<forall>x\<in>set xs. reads_back x" and "xs \<noteq> []"
    and "length (commas (map enc xs)) + 2 \<le> k"
  shows "parse_elems k (commas (map enc xs) @ CHR '']'' # rest)
           = Some (map tuples_as_lists xs, rest)"
  using assms
proof (induction xs arbitrary: k)
  case Nil
  then show ?case by simp
next
  case (Cons x xs)
  from Cons.prems(3) obtain k' where k: "k = Suc k'" by (cases k) auto
  from Cons.prems(1) have rb: "reads_back x" by simp
  show ?case
  proof (cases xs)
    case Nil
    have l: "length (enc x) < k'" using Cons.prems(3) Nil k by simp
    have "parse_value k' (enc x @ CHR '']'' # rest) = Some (tuples_as_lists x, CHR '']'' # rest)"
      using rb l by (simp add: reads_back_def delim_def)
    then show ?thesis
      using Nil k by (simp add: elems_step_last)
  next
    case (Cons y ys)
    have l: "length (enc x) < k'" "length (commas (map enc xs)) + 2 \<le> k'"
      using Cons.prems(3) Cons k by simp_all
    let ?tail = "commas (map enc xs) @ CHR '']'' # rest"
    have "parse_value k' (enc x @ CHR '','' # ?tail) = Some (tuples_as_lists x, CHR '','' # ?tail)"
      using rb l(1) by (simp add: reads_back_def delim_def)
    moreover have "parse_elems k' ?tail = Some (map tuples_as_lists xs, rest)"
      using Cons.IH[OF _ _ l(2)] Cons.prems(1) Cons by simp
    ultimately show ?thesis
      using Cons k by (simp add: elems_step_more)
  qed
qed

lemma enc_dict: "enc (PDict kvs) = CHR ''{'' # commas (map enc_item kvs) @ ''}''"
proof -
  have "(\<lambda>(k, v). enc_str k @ CHR '':'' # enc v) = enc_item"
    by (auto simp: enc_item_def fun_eq_iff)
  then show ?thesis by simp
qed

lemma parse_members_enc:
  assumes "\<forall>kv\<in>set kvs. reads_back (snd kv)" and "kvs \<noteq> []"
    and "length (commas (map enc_item kvs)) + 2 \<le> n"
  shows "parse_members n (commas (map enc_item kvs) @ CHR ''}'' # rest)
           = Some (map (\<lambda>(k, v). (k, tuples_as_lists v)) kvs, rest)"
  using assms
proof (induction kvs arbitrary: n)
  case Nil
  then show ?case by simp
next
  case (Cons kv kvs)
  obtain k v where kv: "kv = (k, v)" by (cases kv)
  from Cons.prems(3) obtain n' where n: "n = Suc n'" by (cases n) auto
  from Cons.prems(1) have rb: "reads_back v" by (simp add: kv)
  obtain t where t: "enc_str k = CHR 0x22 # t" by (simp add: enc_str_def)
  have item: "enc_item (k, v) = CHR 0x22 # t @ CHR '':'' # enc v"
    by (simp add: enc_item_def t)
  have ps: "parse_str (t @ CHR '':'' # enc v @ r) = Some (k, CHR '':'' # enc v @ r)" for r
    using parse_str_enc_str[of k "CHR '':'' # enc v @ r" "t @ CHR '':'' # enc v @ r"] t by simp
  have len: "length (enc v) < length (enc_item kv)" by (simp add: item kv)
  show ?case
  proof (cases kvs)
    case Nil
    have l: "length (enc v) < n'" using Cons.prems(3) Nil n len by simp
    have "parse_value n' (enc v @ CHR ''}'' # rest) = Some (tuples_as_lists v, CHR ''}'' # rest)"
      using rb l by (simp add: reads_back_def delim_def)
    with ps[of "CHR ''}'' # rest"] show ?thesis
      using Nil n by (simp add: item kv members_step_last)
  next
    case (Cons kv' kvs')
    have l: "length (enc v) < n'" "length (commas (map enc_item kvs)) + 2 \<le> n'"
      using Cons.prems(3) Cons n len by simp_all
    let ?tail = "commas (map enc_item kvs) @ CHR ''}'' # rest"
    have "parse_value n' (enc v @ CHR '','' # ?tail) = Some (tuples_as_lists v, CHR '','' # ?tail)"
      using rb l(1) by (simp add: reads_back_def delim_def)
    moreover have "parse_members n' ?tail = Some (map (\<lambda>(k, v). (k, tuples_as_lists v)) kvs, rest)"
      using Cons.IH[OF _ _ l(2)] Cons.prems(1) Cons by simp
    ultimately show ?thesis
      using Cons n ps[of "CHR '','' # ?tail"] by (simp add: item kv members_step_more)
  qed
qed

lemma str_int_starts: "\<exists>c r. str_int i = c # r \<and> (is_digit c \<or> c = CHR ''-'')"
proof (cases "i < 0")
  case True
  then show ?thesis by (simp add: str_int_def)
next
  case False
  obtain c r where cr: "str_nat (nat i) = c # r"
    using str_nat_props[of "nat i"] by (cases "str_nat (nat i)") auto
  with str_nat_hd_digit[of "nat i"] False show ?thesis
    by (simp add: str_int_def)
qed

lemma commas_Cons: "commas (a # as) = a @ (if as = [] then [] else CHR '','' # commas as)"
  by (cases as) simp_all

lemma enc_starts:
  "serializable v \<Longrightarrow> \<exists>c r. enc v = c # r \<and> \<not> is_ws c \<and> c \<noteq> CHR '']'' \<and> c \<noteq> CHR ''}''"
proof (cases v)
  case (PInt i)
  from str_int_starts[of i] obtain c r where "str_int i = c # r" "is_digit c \<or> c = CHR ''-''"
    by blast
  then show ?thesis
    using PInt by (auto simp: is_digit_def is_ws_def)
qed (auto simp: is_ws_def enc_str_def)

lemma update_fresh: "k \<notin> fst ` set acc \<Longrightarrow> AList.update k v acc = acc @ [(k, v)]"
  by (induction acc) auto

lemma fold_update_distinct:
  "distinct (map fst kvs) \<Longrightarrow> fst ` set acc \<inter> fst ` set kvs = {} \<Longrightarrow>
     fold (\<lambda>(k, v). AList.update k v) kvs acc = acc @ kvs"
proof (induction kvs arbitrary: acc)
  case Nil
  then show ?case by simp
next
  case (Cons kv kvs)
  obtain k v where kv: "kv = (k, v)" by (cases kv)
  from Cons.prems have f: "k \<notin> fst ` set acc" by (auto simp: kv)
  have "fst ` set (acc @ [(k, v)]) \<inter> fst ` set kvs = {}"
    using Cons.prems by (auto simp: kv)
  with Cons.IH[of "acc @ [(k, v)]"] Cons.prems(1) show ?case
    by (simp add: kv update_fresh[OF f])
qed

lemma tuple_free_same: "tuple_free v \<Longrightarrow> tuples_as_lists v = v"
proof (induction v)
  case (PList xs)
  then show ?case by (auto simp: list_all_iff intro: map_idI)
next
  case (PDict kvs)
  then have "\<And>kv. kv \<in> set kvs \<Longrightarrow> (case kv of (k, v) \<Rightarrow> (k, tuples_as_lists v)) = kv"
    by (auto simp: list_all_iff)
  then show ?case by (simp add: map_idI)
qed simp_all

lemma reads_back_all: "serializable v \<Longrightarrow> keys_distinct v \<Longrightarrow> reads_back v"
proof (induction v)
  case PNone
  show ?case unfolding reads_back_def
  proof (intro allI impI)
    fix n rest assume "length (enc PNone) < n"
    then obtain m where "n = Suc m" by (cases n) auto
    then show "parse_value n (enc PNone @ rest) = Some (tuples_as_lists PNone, rest)"
      using value_step_null by simp
  qed
next
  case (PBool b)
  show ?case unfolding reads_back_def
  proof (intro allI impI)
    fix n rest assume "length (enc (PBool b)) < n"
    then obtain m where "n = Suc m" by (cases n) auto
    then show "parse_value n (enc (PBool b) @ rest) = Some (tuples_as_lists (PBool b), rest)"
      using value_step_true value_step_false by (cases b) simp_all
  qed
next
  case (PInt i)
  show ?case unfolding reads_back_def
  proof (intro allI impI)
    fix n rest assume "length (enc (PInt i)) < n" and d: "delim rest"
    then obtain m where n: "n = Suc m" by (cases n) auto
    from str_int_starts[of i] obtain c r where cr: "str_int i = c # r" "is_digit c \<or> c = CHR ''-''"
      by blast
    have "parse_int (str_int i @ rest) = Some (i, rest)"
      using parse_int_str_int[OF delim_int_stop[OF d]] PInt.prems(1) by simp
    then have "value_step (parse_elems m) (parse_members m) (c # r @ rest) = Some (PInt i, rest)"
      using value_step_int[OF cr(2), of "parse_elems m" "parse_members m" "r @ rest"] cr(1)
      by simp
    then show "parse_value n (enc (PInt i) @ rest) = Some (tuples_as_lists (PInt i), rest)"
      using n cr(1) by simp
  qed
next
  case (PStr s)
  show ?case unfolding reads_back_def
  proof (intro allI impI)
    fix n rest assume "length (enc (PStr s)) < n"
    then obtain m where n: "n = Suc m" by (cases n) auto
    obtain t where t: "enc_str s = CHR 0x22 # t" by (simp add: enc_str_def)
    have "parse_str (t @ rest) = Some (s, rest)"
      using parse_str_enc_str[of s rest "t @ rest"] t by simp
    then show "parse_value n (enc (PStr s) @ rest) = Some (tuples_as_lists (PStr s), rest)"
      using n t by (simp add: value_step_str)
  qed
next
  case (PBytes b)
  then show ?case by simp
next
  case (PList xs)
  have rb: "\<forall>x\<in>set xs. reads_back x"
    using PList by (auto simp: list_all_iff)
  show ?case unfolding reads_back_def
  proof (intro allI impI)
    fix n rest assume l: "length (enc (PList xs)) < n"
    then obtain m where n: "n = Suc m" by (cases n) auto
    show "parse_value n (enc (PList xs) @ rest) = Some (tuples_as_lists (PList xs), rest)"
    proof (cases xs)
      case Nil
      then show ?thesis using n by (simp add: value_step_list_empty)
    next
      case (Cons y ys)
      have "serializable y" using PList.prems(1) Cons by simp
      from enc_starts[OF this] obtain c r where
        c: "enc y = c # r" "\<not> is_ws c" "c \<noteq> CHR '']''" by blast
      obtain r' where r': "commas (map enc xs) = c # r'"
        using Cons c(1) by (simp add: commas_Cons)
      have k: "length (commas (map enc xs)) + 2 \<le> m" using l n by simp
      have ne: "xs \<noteq> []" using Cons by simp
      have "parse_elems m (c # r' @ CHR '']'' # rest) = Some (map tuples_as_lists xs, rest)"
        using parse_elems_enc[OF rb ne k, of rest] r' by simp
      then have "value_step (parse_elems m) (parse_members m) (CHR ''['' # c # r' @ CHR '']'' # rest)
            = Some (PList (map tuples_as_lists xs), rest)"
        by (simp add: value_step_list[OF c(2,3)])
      then show ?thesis using n r' by simp
    qed
  qed
next
  case (PTuple xs)
  have rb: "\<forall>x\<in>set xs. reads_back x"
    using PTuple by (auto simp: list_all_iff)
  show ?case unfolding reads_back_def
  proof (intro allI impI)
    fix n rest assume l: "length (enc (PTuple xs)) < n"
    then obtain m where n: "n = Suc m" by (cases n) auto
    show "parse_value n (enc (PTuple xs) @ rest) = Some (tuples_as_lists (PTuple xs), rest)"
    proof (cases xs)
      case Nil
      then show ?thesis using n by (simp add: value_step_list_empty)
    next
      case (Cons y ys)
      have "serializable y" using PTuple.prems(1) Cons by simp
      from enc_starts[OF this] obtain c r where
        c: "enc y = c # r" "\<not> is_ws c" "c \<noteq> CHR '']''" by blast
      obtain r' where r': "commas (map enc xs) = c # r'"
        using Cons c(1) by (simp add: commas_Cons)
      have k: "length (commas (map enc xs)) + 2 \<le> m" using l n by simp
      have ne: "xs \<noteq> []" using Cons by simp
      have "parse_elems m (c # r' @ CHR '']'' # rest) = Some (map tuples_as_lists xs, rest)"
        using parse_elems_enc[OF rb ne k, of rest] r' by simp
      then have "value_step (parse_elems m) (parse_members m) (CHR ''['' # c # r' @ CHR '']'' # rest)
            = Some (PList (map tuples_as_lists xs), rest)"
        by (simp add: value_step_list[OF c(2,3)])
      then show ?thesis using n r' by simp
    qed
  qed
next
  case (PDict kvs)
  have rb: "\<forall>kv\<in>set kvs. reads_back (snd kv)"
  proof
    fix kv assume a: "kv \<in> set kvs"
    obtain k v where kv: "kv = (k, v)" by (cases kv)
    have "serializable v" "keys_distinct v"
      using PDict.prems a kv by (auto simp: list_all_iff)
    with PDict.IH[of kv v] a kv show "reads_back (snd kv)" by simp
  qed
  let ?out = "map (\<lambda>(k, v). (k, tuples_as_lists v)) kvs"
  have "map fst ?out = map fst kvs"
    by (induction kvs) auto
  moreover have "distinct (map fst kvs)" using PDict.prems(2) by simp
  ultimately have "distinct (map fst ?out)" by (simp only:)
  from fold_update_distinct[OF this, of "[]"] have fu: "fold (\<lambda>(k, v). AList.update k v) ?out [] = ?out"
    by simp
  show ?case unfolding reads_back_def
  proof (intro allI impI)
    fix n rest assume l: "length (enc (PDict kvs)) < n"
    then obtain m where n: "n = Suc m" by (cases n) auto
    show "parse_value n (enc (PDict kvs) @ rest) = Some (tuples_as_lists (PDict kvs), rest)"
    proof (cases kvs)
      case Nil
      then show ?thesis using n by (simp add: value_step_dict_empty)
    next
      case (Cons y ys)
      obtain r' where r': "commas (map enc_item kvs) = CHR 0x22 # r'"
        using Cons by (simp add: commas_Cons enc_item_def enc_str_def)
      have k: "length (commas (map enc_item kvs)) + 2 \<le> m"
        using l n unfolding enc_dict by simp
      have ne: "kvs \<noteq> []" using Cons by simp
      have w: "\<not> is_ws (CHR 0x22)" "CHR 0x22 \<noteq> CHR ''}''" by (simp_all add: is_ws_def)
      have "parse_members m (CHR 0x22 # r' @ CHR ''}'' # rest) = Some (?out, rest)"
        using parse_members_enc[OF rb ne k, of rest] r' by simp
      then have "value_step (parse_elems m) (parse_members m)
            (CHR ''{'' # CHR 0x22 # r' @ CHR ''}'' # rest) = Some (PDict ?out, rest)"
        by (simp add: value_step_dict[OF w] fu)
      then show ?thesis using n r' unfolding enc_dict by simp
    qed
  qed
qed

lemma loads_enc:
  assumes "serializable v" and "keys_distinct v"
  shows "orjson_loads (enc v) = Inr (tuples_as_lists v)"
proof -
  have d: "delim []" by (simp add: delim_def)
  have l: "length (enc v) < Suc (length (enc v))" by simp
  from reads_back_all[OF assms]
  have "parse_value (Suc (length (enc v))) (enc v @ []) = Some (tuples_as_lists v, [])"
    unfolding reads_back_def using l d by blast
  then have "parse_value (Suc (length (enc v))) (enc v) = Some (tuples_as_lists v, [])"
    by (simp only: append_Nil2)
  then show ?thesis by (simp only: orjson_loads_def skip_ws_def) simp
qed

lemma str_int_1: "str_int 1 = ''1''"
  by (simp add: str_int_def str_nat.simps digit_char_def)

lemma str_int_2: "str_int 2 = ''2''"
  by (simp add: str_int_def str_nat.simps digit_char_def)

lemma enc_str_hello: "enc_str ''hello'' = CHR 0x22 # ''hello'' @ [CHR 0x22]"
  by (simp add: enc_str_def escape_char_def)

lemma enc_str_world: "enc_str ''world'' = CHR 0x22 # ''world'' @ [CHR 0x22]"
  by (simp add: enc_str_def escape_char_def)

subsection \<open>Round trip\<close>

text \<open>
  Claim C5, as the source has it.  For an object that \<^verbatim>\<open>dumps\<close> accepts,
  \<^verbatim>\<open>loads(dumps(v))\<close> is \<open>v\<close> with its tuples turned into lists; it is \<open>v\<close> itself
  when \<open>v\<close> is built from \<^verbatim>\<open>None\<close>, booleans, integers, strings, lists and dicts
  with string keys.  It does not matter whether \<^verbatim>\<open>loads\<close> is given the bytes or the
  same text as a \<^verbatim>\<open>str\<close>.
\<close>

theorem serializer_round_trip:
  assumes "serializer_dumps v = Inr b" and "keys_distinct v"
  shows "serializer_loads (Bytes b) = Inr (tuples_as_lists v) \<and>
         serializer_loads (Str b) = Inr (tuples_as_lists v) \<and>
         (tuple_free v \<longrightarrow> serializer_loads (Bytes b) = Inr v)"
proof -
  from assms(1) have s: "serializable v" and b: "b = enc v"
    by (auto simp: serializer_dumps_def orjson_dumps_def split: if_splits)
  from loads_enc[OF s assms(2)] tuple_free_same[of v] show ?thesis
    by (auto simp: serializer_loads_def encode_utf8_def b)
qed

text \<open>The example of the docstring of \<^verbatim>\<open>dumps\<close>: \<^verbatim>\<open>{"hello": "world"}\<close>.\<close>

theorem serializer_round_trip_witness:
  "serializer_dumps (PDict [(''hello'', PStr ''world'')])
     = Inr (CHR ''{'' # CHR 0x22 # ''hello'' @ CHR 0x22 # CHR '':'' # CHR 0x22 # ''world'' @
            [CHR 0x22, CHR ''}'']) \<and>
   serializer_loads (Bytes (CHR ''{'' # CHR 0x22 # ''hello'' @ CHR 0x22 # CHR '':'' # CHR 0x22 #
            ''world'' @ [CHR 0x22, CHR ''}'']))
     = Inr (PDict [(''hello'', PStr ''world'')])"
proof -
  let ?v = "PDict [(''hello'', PStr ''world'')]"
  let ?b = "CHR ''{'' # CHR 0x22 # ''hello'' @ CHR 0x22 # CHR '':'' # CHR 0x22 # ''world'' @
            [CHR 0x22, CHR ''}'']"
  have d: "serializer_dumps ?v = Inr ?b"
    by (simp add: serializer_dumps_def orjson_dumps_def enc_str_hello enc_str_world)
  have k: "keys_distinct ?v" by simp
  have t: "tuple_free ?v" by simp
  from serializer_round_trip[OF d k] t d show ?thesis by simp
qed

text \<open>
  Claim C5 as stated holds for every object \<^verbatim>\<open>dumps\<close> accepts.  It accepts the tuple
  \<^verbatim>\<open>(1, 2)\<close> and writes \<^verbatim>\<open>[1,2]\<close>, which \<^verbatim>\<open>loads\<close> reads as the list \<^verbatim>\<open>[1, 2]\<close>;
  a list is not equal to a tuple.
\<close>

theorem serializer_tuple_counterexample:
  "serializer_dumps (PTuple [PInt 1, PInt 2]) = Inr ''[1,2]'' \<and>
   serializer_loads (Bytes ''[1,2]'') = Inr (PList [PInt 1, PInt 2]) \<and>
   PList [PInt 1, PInt 2] \<noteq> PTuple [PInt 1, PInt 2]"
proof -
  have e: "enc (PTuple [PInt 1, PInt 2]) = ''[1,2]''"
    by (simp add: str_int_1 str_int_2)
  have "orjson_loads (enc (PTuple [PInt 1, PInt 2])) = Inr (tuples_as_lists (PTuple [PInt 1, PInt 2]))"
    by (rule loads_enc) simp_all
  then have l: "orjson_loads ''[1,2]'' = Inr (PList [PInt 1, PInt 2])"
    unfolding e by simp
  have d: "serializer_dumps (PTuple [PInt 1, PInt 2]) = Inr ''[1,2]''"
    by (simp add: serializer_dumps_def orjson_dumps_def str_int_1 str_int_2)
  from d l show ?thesis
    by (simp add: serializer_loads_def)
qed

end
